theory Spec2Isabelle
  imports Main
begin

section \<open>Schema\<close>

text \<open>
  The tables of the initial migration. A UUID is a natural number; the timestamp columns
  (\<open>created_at\<close>, \<open>updated_at\<close>) are left out, no trigger, policy or function reads them.
  Every column is \<open>NOT NULL\<close>, so no field is optional. The primary key column \<open>id\<close> of
  each table carries a table prefix, and \<open>user_roles.user_id\<close> is \<open>role_user_id\<close>, because
  record fields share one name space.
\<close>

type_synonym uuid = nat

datatype app_role = Admin | User

record allowed_user_row =
  au_id :: uuid
  email :: string
  uti :: string

record seat_layout_row =
  sl_id :: uuid
  name :: string
  total_rows :: int
  total_columns :: int

record seat_row =
  s_id :: uuid
  seat_layout_id :: uuid
  row_num :: int
  col_num :: int
  is_booked :: bool

record user_role_row =
  ur_id :: uuid
  role_user_id :: uuid
  role :: app_role

record booking_row =
  b_id :: uuid
  user_id :: uuid
  seat_id :: uuid

text \<open>
  \<open>auth.users\<close> belongs to the hosted identity service; \<open>bookings\<close> and \<open>user_roles\<close>
  reference its \<open>id\<close>. The password is kept as the caller sent it.
\<close>

datatype json =
    JNull
  | JBool bool
  | JNum int
  | JStr string
  | JArr "json list"
  | JObj "(string \<times> json) list"

record auth_user =
  auth_id :: uuid
  auth_email :: string
  auth_password :: json
  email_confirm :: bool

record db =
  auth_users :: "auth_user list"
  allowed_users :: "allowed_user_row list"
  seat_layout :: "seat_layout_row list"
  seats :: "seat_row list"
  user_roles :: "user_role_row list"
  bookings :: "booking_row list"

datatype sql_error =
    Unique_violation string
  | Foreign_key_violation string
  | Rls_violation string
  | Numeric_value_out_of_range
  | Null_loop_bound

text \<open>
  A statement that raises is rolled back: the tables are those before the statement.
\<close>

definition commit :: "db \<Rightarrow> sql_error + db \<Rightarrow> db" where
  "commit d r = (case r of Inl e \<Rightarrow> d | Inr d' \<Rightarrow> d')"

section \<open>Consistency triggers\<close>

text \<open>
  Each trigger function is the list of \<open>UPDATE public.seats SET is_booked = v WHERE id = sid\<close>
  statements its body issues, in order.
\<close>

datatype seat_update = Set_is_booked bool uuid

fun exec_seat_update :: "seat_update \<Rightarrow> seat_row list \<Rightarrow> seat_row list" where
  "exec_seat_update (Set_is_booked v sid) ss =
     map (\<lambda>s. if s_id s = sid then s\<lparr>is_booked := v\<rparr> else s) ss"

definition mark_seat_booked :: "booking_row \<Rightarrow> seat_update list" where
  "mark_seat_booked NEW = [Set_is_booked True (seat_id NEW)]"

definition free_seat_on_delete :: "booking_row \<Rightarrow> seat_update list" where
  "free_seat_on_delete OLD = [Set_is_booked False (seat_id OLD)]"

definition handle_booking_update :: "booking_row \<Rightarrow> booking_row \<Rightarrow> seat_update list" where
  "handle_booking_update OLD NEW =
     (if seat_id OLD \<noteq> seat_id NEW
      then [Set_is_booked False (seat_id OLD), Set_is_booked True (seat_id NEW)]
      else [])"

definition exec_trigger :: "seat_update list \<Rightarrow> db \<Rightarrow> db" where
  "exec_trigger us d = d\<lparr>seats := fold exec_seat_update us (seats d)\<rparr>"

section \<open>Statements on bookings\<close>

text \<open>
  \<open>INSERT INTO bookings\<close>: the primary key, \<open>UNIQUE\<close> on \<open>seat_id\<close>, \<open>UNIQUE(user_id)\<close>, the two
  foreign keys, then the \<open>AFTER INSERT\<close> trigger \<open>on_booking_created\<close>.
\<close>

definition insert_booking :: "booking_row \<Rightarrow> db \<Rightarrow> sql_error + db" where
  "insert_booking NEW d =
     (if b_id NEW \<in> set (map b_id (bookings d)) then Inl (Unique_violation ''bookings_pkey'')
      else if seat_id NEW \<in> set (map seat_id (bookings d))
        then Inl (Unique_violation ''bookings_seat_id_key'')
      else if user_id NEW \<in> set (map user_id (bookings d))
        then Inl (Unique_violation ''bookings_user_id_key'')
      else if user_id NEW \<notin> set (map auth_id (auth_users d))
        then Inl (Foreign_key_violation ''bookings_user_id_fkey'')
      else if seat_id NEW \<notin> set (map s_id (seats d))
        then Inl (Foreign_key_violation ''bookings_seat_id_fkey'')
      else Inr (exec_trigger (mark_seat_booked NEW) (d\<lparr>bookings := bookings d @ [NEW]\<rparr>)))"

text \<open>
  \<open>DELETE FROM bookings WHERE P\<close>, also the form the \<open>ON DELETE CASCADE\<close> of a user or a seat
  takes: the \<open>AFTER DELETE\<close> trigger \<open>on_booking_deleted\<close> runs for each deleted row.
\<close>

definition delete_bookings_where :: "(booking_row \<Rightarrow> bool) \<Rightarrow> db \<Rightarrow> db" where
  "delete_bookings_where P d =
     fold (\<lambda>OLD. exec_trigger (free_seat_on_delete OLD)) (filter P (bookings d))
       (d\<lparr>bookings := filter (\<lambda>b. \<not> P b) (bookings d)\<rparr>)"

text \<open>
  \<open>UPDATE bookings SET user_id = u, seat_id = s WHERE id = bid\<close>, each assignment optional
  (the admin page sets \<open>seat_id\<close> only). The primary key selects at most one row; with no row
  the statement succeeds and changes nothing. The \<open>AFTER UPDATE\<close> trigger
  \<open>on_booking_updated\<close> gets the old and the new row.
\<close>

definition booking_set :: "booking_row \<Rightarrow> uuid option \<Rightarrow> uuid option \<Rightarrow> booking_row" where
  "booking_set OLD set_user set_seat =
     OLD\<lparr>user_id := (case set_user of None \<Rightarrow> user_id OLD | Some u \<Rightarrow> u),
         seat_id := (case set_seat of None \<Rightarrow> seat_id OLD | Some s \<Rightarrow> s)\<rparr>"

definition update_booking :: "uuid \<Rightarrow> uuid option \<Rightarrow> uuid option \<Rightarrow> db \<Rightarrow> sql_error + db" where
  "update_booking bid set_user set_seat d =
     (case filter (\<lambda>b. b_id b = bid) (bookings d) of
        [] \<Rightarrow> Inr d
      | OLD # _ \<Rightarrow>
          (let NEW = booking_set OLD set_user set_seat;
               others = filter (\<lambda>b. b_id b \<noteq> bid) (bookings d)
           in if seat_id NEW \<in> set (map seat_id others)
                then Inl (Unique_violation ''bookings_seat_id_key'')
              else if user_id NEW \<in> set (map user_id others)
                then Inl (Unique_violation ''bookings_user_id_key'')
              else if user_id NEW \<notin> set (map auth_id (auth_users d))
                then Inl (Foreign_key_violation ''bookings_user_id_fkey'')
              else if seat_id NEW \<notin> set (map s_id (seats d))
                then Inl (Foreign_key_violation ''bookings_seat_id_fkey'')
              else Inr (exec_trigger (handle_booking_update OLD NEW)
                     (d\<lparr>bookings := map (\<lambda>b. if b_id b = bid then NEW else b) (bookings d)\<rparr>))))"

text \<open>
  \<open>DELETE FROM auth.users WHERE id = uid\<close> cascades to \<open>user_roles\<close> and \<open>bookings\<close>;
  \<open>DELETE FROM seats WHERE P\<close> cascades to the bookings of the deleted seats.
\<close>

definition delete_user :: "uuid \<Rightarrow> db \<Rightarrow> db" where
  "delete_user uid d =
     delete_bookings_where (\<lambda>b. user_id b = uid)
       (d\<lparr>auth_users := filter (\<lambda>u. auth_id u \<noteq> uid) (auth_users d),
          user_roles := filter (\<lambda>r. role_user_id r \<noteq> uid) (user_roles d)\<rparr>)"

definition delete_seats_where :: "(seat_row \<Rightarrow> bool) \<Rightarrow> db \<Rightarrow> db" where
  "delete_seats_where P d =
     delete_bookings_where (\<lambda>b. seat_id b \<in> set (map s_id (filter P (seats d))))
       (d\<lparr>seats := filter (\<lambda>s. \<not> P s) (seats d)\<rparr>)"


section \<open>Statements on seats and layouts\<close>

text \<open>
  The admin page's freeze toggle, \<open>UPDATE seats SET is_booked = v WHERE id = sid\<close>, and its
  layout form, \<open>UPDATE seat_layout SET total_rows = r, total_columns = c WHERE id = lid\<close>.
  The two columns are \<open>INTEGER\<close>: a value outside the 32-bit range raises.
\<close>

definition update_seat_is_booked :: "uuid \<Rightarrow> bool \<Rightarrow> db \<Rightarrow> db" where
  "update_seat_is_booked sid v d = d\<lparr>seats := exec_seat_update (Set_is_booked v sid) (seats d)\<rparr>"

definition int4 :: "int \<Rightarrow> bool" where
  "int4 x \<longleftrightarrow> - 2147483648 \<le> x \<and> x \<le> 2147483647"

definition update_layout :: "uuid \<Rightarrow> int \<Rightarrow> int \<Rightarrow> db \<Rightarrow> sql_error + db" where
  "update_layout lid r c d =
     (if int4 r \<and> int4 c
      then Inr (d\<lparr>seat_layout :=
                   map (\<lambda>l. if sl_id l = lid then l\<lparr>total_rows := r, total_columns := c\<rparr> else l)
                     (seat_layout d)\<rparr>)
      else Inl Numeric_value_out_of_range)"

text \<open>
  \<open>INSERT INTO seats ... ON CONFLICT (seat_layout_id, row_num, col_num) DO NOTHING\<close>: a row
  with the same cell makes the statement a no-op; the primary key and the foreign key still
  raise.
\<close>

definition seat_key :: "seat_row \<Rightarrow> uuid \<times> int \<times> int" where
  "seat_key s = (seat_layout_id s, row_num s, col_num s)"

definition insert_seat_on_conflict_do_nothing :: "seat_row \<Rightarrow> db \<Rightarrow> sql_error + db" where
  "insert_seat_on_conflict_do_nothing NEW d =
     (if seat_key NEW \<in> set (map seat_key (seats d)) then Inr d
      else if s_id NEW \<in> set (map s_id (seats d)) then Inl (Unique_violation ''seats_pkey'')
      else if seat_layout_id NEW \<notin> set (map sl_id (seat_layout d))
        then Inl (Foreign_key_violation ''seats_seat_layout_id_fkey'')
      else Inr (d\<lparr>seats := seats d @ [NEW]\<rparr>))"

text \<open>
  \<open>generate_seats_for_layout\<close>. The two nested \<open>FOR\<close> loops visit the cells of
  \<open>layout_cells\<close>, that is \<open>List.product [1.._rows] [1.._cols]\<close>, in this order.
  \<open>gen_random_uuid r c\<close> is the value the column default \<open>gen_random_uuid()\<close> draws in
  iteration \<open>(r, c)\<close>; \<open>is_booked\<close> takes its default \<open>false\<close>. With no layout row the
  \<open>SELECT ... INTO\<close> leaves \<open>_rows\<close> null and the loop header raises.
\<close>

definition seat_values :: "(int \<Rightarrow> int \<Rightarrow> uuid) \<Rightarrow> uuid \<Rightarrow> int \<times> int \<Rightarrow> seat_row" where
  "seat_values gen_random_uuid layout_id cell =
     \<lparr>s_id = gen_random_uuid (fst cell) (snd cell), seat_layout_id = layout_id,
      row_num = fst cell, col_num = snd cell, is_booked = False\<rparr>"

fun insert_seats :: "(int \<Rightarrow> int \<Rightarrow> uuid) \<Rightarrow> uuid \<Rightarrow> (int \<times> int) list \<Rightarrow> db \<Rightarrow> sql_error + db" where
  "insert_seats gen_random_uuid layout_id [] d = Inr d"
| "insert_seats gen_random_uuid layout_id (cell # cells) d =
     (case insert_seat_on_conflict_do_nothing (seat_values gen_random_uuid layout_id cell) d of
        Inl e \<Rightarrow> Inl e
      | Inr d' \<Rightarrow> insert_seats gen_random_uuid layout_id cells d')"

definition layout_cells :: "seat_layout_row \<Rightarrow> (int \<times> int) list" where
  "layout_cells l = List.product [1..total_rows l] [1..total_columns l]"

definition generate_seats_for_layout :: "(int \<Rightarrow> int \<Rightarrow> uuid) \<Rightarrow> uuid \<Rightarrow> db \<Rightarrow> sql_error + db" where
  "generate_seats_for_layout gen_random_uuid layout_id d =
     (case filter (\<lambda>l. sl_id l = layout_id) (seat_layout d) of
        [] \<Rightarrow> Inl Null_loop_bound
      | l # _ \<Rightarrow>
          insert_seats gen_random_uuid layout_id (layout_cells l)
            (delete_seats_where (\<lambda>s. seat_layout_id s = layout_id \<and> is_booked s = False) d))"

section \<open>Statements on allowed_users\<close>

definition insert_allowed_user :: "allowed_user_row \<Rightarrow> db \<Rightarrow> sql_error + db" where
  "insert_allowed_user NEW d =
     (if au_id NEW \<in> set (map au_id (allowed_users d))
        then Inl (Unique_violation ''allowed_users_pkey'')
      else if email NEW \<in> set (map email (allowed_users d))
        then Inl (Unique_violation ''allowed_users_email_key'')
      else if uti NEW \<in> set (map uti (allowed_users d))
        then Inl (Unique_violation ''allowed_users_uti_key'')
      else Inr (d\<lparr>allowed_users := allowed_users d @ [NEW]\<rparr>))"

definition update_allowed_user :: "uuid \<Rightarrow> string option \<Rightarrow> string option \<Rightarrow> db \<Rightarrow> sql_error + db" where
  "update_allowed_user aid set_email set_uti d =
     (case filter (\<lambda>a. au_id a = aid) (allowed_users d) of
        [] \<Rightarrow> Inr d
      | OLD # _ \<Rightarrow>
          (let NEW = OLD\<lparr>email := (case set_email of None \<Rightarrow> email OLD | Some e \<Rightarrow> e),
                         uti := (case set_uti of None \<Rightarrow> uti OLD | Some u \<Rightarrow> u)\<rparr>;
               others = filter (\<lambda>a. au_id a \<noteq> aid) (allowed_users d)
           in if email NEW \<in> set (map email others)
                then Inl (Unique_violation ''allowed_users_email_key'')
              else if uti NEW \<in> set (map uti others)
                then Inl (Unique_violation ''allowed_users_uti_key'')
              else Inr (d\<lparr>allowed_users :=
                           map (\<lambda>a. if au_id a = aid then NEW else a) (allowed_users d)\<rparr>)))"

definition delete_allowed_user :: "uuid \<Rightarrow> db \<Rightarrow> db" where
  "delete_allowed_user aid d = d\<lparr>allowed_users := filter (\<lambda>a. au_id a \<noteq> aid) (allowed_users d)\<rparr>"


section \<open>Statements on user_roles\<close>

text \<open>
  \<open>INSERT INTO user_roles\<close>: the primary key, \<open>UNIQUE(user_id, role)\<close> and the foreign key to
  \<open>auth.users\<close>.
\<close>

definition insert_user_role :: "user_role_row \<Rightarrow> db \<Rightarrow> sql_error + db" where
  "insert_user_role NEW d =
     (if ur_id NEW \<in> set (map ur_id (user_roles d))
        then Inl (Unique_violation ''user_roles_pkey'')
      else if (role_user_id NEW, role NEW) \<in> set (map (\<lambda>r. (role_user_id r, role r)) (user_roles d))
        then Inl (Unique_violation ''user_roles_user_id_role_key'')
      else if role_user_id NEW \<notin> set (map auth_id (auth_users d))
        then Inl (Foreign_key_violation ''user_roles_user_id_fkey'')
      else Inr (d\<lparr>user_roles := user_roles d @ [NEW]\<rparr>))"

section \<open>Access policy on bookings\<close>

text \<open>
  The helper functions of the policies. \<open>seat_is_available\<close> is a scalar \<open>SELECT\<close>: with no
  seat of that id it yields SQL \<open>NULL\<close>, here \<open>None\<close>.
\<close>

definition has_role :: "db \<Rightarrow> uuid \<Rightarrow> app_role \<Rightarrow> bool" where
  "has_role d uid r \<longleftrightarrow> (\<exists>x \<in> set (user_roles d). role_user_id x = uid \<and> role x = r)"

definition user_has_booking :: "db \<Rightarrow> uuid \<Rightarrow> bool" where
  "user_has_booking d uid \<longleftrightarrow> (\<exists>b \<in> set (bookings d). user_id b = uid)"

definition seat_is_available :: "db \<Rightarrow> uuid \<Rightarrow> bool option" where
  "seat_is_available d sid =
     (case filter (\<lambda>s. s_id s = sid) (seats d) of
        [] \<Rightarrow> None
      | s # _ \<Rightarrow> Some (\<not> is_booked s))"

text \<open>SQL's three-valued \<open>AND\<close> and \<open>OR\<close>.\<close>

fun sql_and :: "bool option \<Rightarrow> bool option \<Rightarrow> bool option" where
  "sql_and (Some False) y = Some False"
| "sql_and x (Some False) = Some False"
| "sql_and (Some True) (Some True) = Some True"
| "sql_and x y = None"

fun sql_or :: "bool option \<Rightarrow> bool option \<Rightarrow> bool option" where
  "sql_or (Some True) y = Some True"
| "sql_or x (Some True) = Some True"
| "sql_or (Some False) (Some False) = Some False"
| "sql_or x y = None"

text \<open>
  The \<open>WITH CHECK\<close> expressions of the two permissive policies that apply to an \<open>INSERT\<close>
  on bookings by an authenticated caller \<open>uid\<close> (\<open>auth.uid()\<close>): "Users can book if no
  existing booking and seat available" (\<open>FOR INSERT\<close>) and "Admins can manage all bookings"
  (\<open>FOR ALL\<close>). Permissive policies are joined with \<open>OR\<close>; the row passes when the result
  is true, and is refused when it is false or null. The check reads the tables as they are
  before the row is stored.
\<close>

definition users_can_book :: "db \<Rightarrow> uuid \<Rightarrow> booking_row \<Rightarrow> bool option" where
  "users_can_book d uid NEW =
     sql_and (sql_and (Some (user_id NEW = uid)) (Some (\<not> user_has_booking d uid)))
       (seat_is_available d (seat_id NEW))"

definition admins_can_manage_all_bookings :: "db \<Rightarrow> uuid \<Rightarrow> bool option" where
  "admins_can_manage_all_bookings d uid = Some (has_role d uid Admin)"

definition bookings_insert_permitted :: "db \<Rightarrow> uuid \<Rightarrow> booking_row \<Rightarrow> bool" where
  "bookings_insert_permitted d uid NEW \<longleftrightarrow>
     sql_or (users_can_book d uid NEW) (admins_can_manage_all_bookings d uid) = Some True"

definition client_insert_booking :: "uuid \<Rightarrow> booking_row \<Rightarrow> db \<Rightarrow> sql_error + db" where
  "client_insert_booking uid NEW d =
     (if bookings_insert_permitted d uid NEW then insert_booking NEW d
      else Inl (Rls_violation ''bookings''))"


section \<open>The provisioning handler\<close>

text \<open>
  The request as the handler sees it: the HTTP method, the outcome of
  \<open>supabaseClient.auth.getUser()\<close> for the request's \<open>Authorization\<close> header (\<open>None\<close> when it
  reports an error or no user), whether the \<open>user_roles\<close> query comes back with an error,
  and the outcome of \<open>req.json()\<close> (\<open>Inl\<close> with the error's message when it throws).
\<close>

record request =
  req_method :: string
  caller :: "uuid option"
  role_lookup_fails :: bool
  body :: "string + json"

record response =
  status :: nat
  payload :: json

text \<open>
  What the handler takes from outside the repository: \<open>auth.admin.createUser\<close> of the
  identity service (given the registered identities, the email, the password and
  \<open>email_confirm: true\<close>, it returns an error message or the new identities with the new
  user's id), the text the REST layer stores for a JSON value that is not a string, the
  values \<open>gen_random_uuid()\<close> draws for the two inserted rows, and the message of the
  \<open>TypeError\<close> the runtime throws when \<open>null\<close> is destructured.
\<close>

record services =
  createUser :: "auth_user list \<Rightarrow> string \<Rightarrow> json \<Rightarrow> string + (auth_user list \<times> uuid)"
  text_of :: "json \<Rightarrow> string"
  allowed_user_uuid :: uuid
  user_role_uuid :: uuid
  destructure_null_message :: string

text \<open>
  JavaScript values: \<open>None\<close> is \<open>undefined\<close>. Destructuring reads the properties \<open>email\<close>,
  \<open>uti\<close> and \<open>role\<close>, which only an object can have; for a repeated key \<open>JSON.parse\<close>
  keeps the last value. A number is falsy when it is zero.
\<close>

fun get_prop :: "json \<Rightarrow> string \<Rightarrow> json option" where
  "get_prop (JObj kvs) k = map_of (rev kvs) k"
| "get_prop v k = None"

fun truthy :: "json option \<Rightarrow> bool" where
  "truthy None = False"
| "truthy (Some JNull) = False"
| "truthy (Some (JBool b)) = b"
| "truthy (Some (JNum n)) = (n \<noteq> 0)"
| "truthy (Some (JStr s)) = (s \<noteq> [])"
| "truthy (Some (JArr vs)) = True"
| "truthy (Some (JObj kvs)) = True"

text \<open>\<open>String.prototype.toLowerCase\<close> on the ASCII letters; other characters stay.\<close>

definition lower_char :: "char \<Rightarrow> char" where
  "lower_char c =
     (case map_of (zip ''ABCDEFGHIJKLMNOPQRSTUVWXYZ'' ''abcdefghijklmnopqrstuvwxyz'') c of
        None \<Rightarrow> c
      | Some l \<Rightarrow> l)"

definition toLowerCase :: "string \<Rightarrow> string" where
  "toLowerCase s = map lower_char s"

text \<open>
  \<open>String.prototype.trim\<close>, which the login form and the spreadsheet import apply to an
  email before they send it (\<open>email.trim().toLowerCase()\<close>): it drops the white space at both
  ends (space, tab, line feed, vertical tab, form feed, carriage return).
\<close>

definition white_space :: "char \<Rightarrow> bool" where
  "white_space c \<longleftrightarrow> c \<in> set [CHR '' '', CHR 0x09, CHR 0x0A, CHR 0x0B, CHR 0x0C, CHR 0x0D]"

definition trim :: "string \<Rightarrow> string" where
  "trim s = rev (dropWhile white_space (rev (dropWhile white_space s)))"

text \<open>
  The \<open>user_roles\<close> query \<open>.eq("user_id", user.id).eq("role", "admin").maybeSingle()\<close>, of
  which the handler reads \<open>data\<close> only: the row when exactly one matches, null otherwise
  and on every error.
\<close>

definition admin_role_lookup :: "request \<Rightarrow> db \<Rightarrow> uuid \<Rightarrow> user_role_row option" where
  "admin_role_lookup req d uid =
     (if role_lookup_fails req then None
      else case filter (\<lambda>r. role_user_id r = uid \<and> role r = Admin) (user_roles d) of
             [r] \<Rightarrow> Some r
           | rs \<Rightarrow> None)"

text \<open>The \<open>app_role\<close> enum accepts the labels \<open>admin\<close> and \<open>user\<close>.\<close>

fun app_role_of :: "json \<Rightarrow> app_role option" where
  "app_role_of (JStr s) =
     (if s = ''admin'' then Some Admin else if s = ''user'' then Some User else None)"
| "app_role_of v = None"

definition error_response :: "nat \<Rightarrow> string \<Rightarrow> response" where
  "error_response code msg = \<lparr>status = code, payload = JObj [(''error'', JStr msg)]\<rparr>"

definition success_response :: response where
  "success_response = \<lparr>status = 200, payload = JObj [(''success'', JBool True)]\<rparr>"

text \<open>
  Steps 2 and 3 of the handler: the two inserts run with the service role, and the handler
  awaits them without reading their \<open>error\<close>, so a failed insert leaves its table as it was
  and the handler goes on.
\<close>

definition allowed_user_values :: "services \<Rightarrow> string \<Rightarrow> json \<Rightarrow> allowed_user_row" where
  "allowed_user_values sv e u =
     \<lparr>au_id = allowed_user_uuid sv, email = toLowerCase e,
      uti = (case u of JStr s \<Rightarrow> s | v \<Rightarrow> text_of sv v)\<rparr>"

definition insert_allowed_step :: "services \<Rightarrow> string \<Rightarrow> json \<Rightarrow> db \<Rightarrow> db" where
  "insert_allowed_step sv e u d = commit d (insert_allowed_user (allowed_user_values sv e u) d)"

text \<open>\<open>role || "user"\<close>.\<close>

definition role_or_user :: "json option \<Rightarrow> json" where
  "role_or_user r =
     (if truthy r then (case r of Some v \<Rightarrow> v | None \<Rightarrow> JStr ''user'') else JStr ''user'')"

definition insert_role_step :: "services \<Rightarrow> uuid \<Rightarrow> json option \<Rightarrow> db \<Rightarrow> db" where
  "insert_role_step sv new_id r d =
     (case app_role_of (role_or_user r) of
        None \<Rightarrow> d
      | Some ro \<Rightarrow>
          commit d (insert_user_role
            \<lparr>ur_id = user_role_uuid sv, role_user_id = new_id, role = ro\<rparr> d))"

text \<open>
  The handler of \<open>supabase/functions/login/index.ts\<close> (the function the admin page invokes
  as \<open>add_user\<close>): the response and the stores after the request. Every exception inside
  the \<open>try\<close> block ends in the 500 response of the \<open>catch\<close> block with the exception's
  message: \<open>req.json()\<close> throwing, the destructuring of a \<open>null\<close> body, the call of
  \<open>toLowerCase\<close> on an email that is no string, and an error of \<open>createUser\<close>.
\<close>

definition add_user :: "services \<Rightarrow> request \<Rightarrow> db \<Rightarrow> response \<times> db" where
  "add_user sv req d =
     (if req_method req = ''OPTIONS'' then (\<lparr>status = 200, payload = JStr ''ok''\<rparr>, d)
      else case caller req of
        None \<Rightarrow> (error_response 401 ''Unauthorized'', d)
      | Some uid \<Rightarrow>
          (case admin_role_lookup req d uid of
             None \<Rightarrow> (error_response 403 ''Only admins can add users'', d)
           | Some roleData \<Rightarrow>
               (case body req of
                  Inl msg \<Rightarrow> (error_response 500 msg, d)
                | Inr JNull \<Rightarrow> (error_response 500 (destructure_null_message sv), d)
                | Inr b \<Rightarrow>
                    (let email = get_prop b ''email''; uti = get_prop b ''uti'';
                         role = get_prop b ''role''
                     in if \<not> truthy email \<or> \<not> truthy uti
                        then (error_response 400 ''Missing email or uti'', d)
                        else
                          (case (email, uti) of
                             (Some (JStr e), Some u) \<Rightarrow>
                               (case createUser sv (auth_users d) (toLowerCase e) u of
                                  Inl msg \<Rightarrow> (error_response 500 msg, d)
                                | Inr (users, new_id) \<Rightarrow>
                                    (success_response,
                                     insert_role_step sv new_id role
                                       (insert_allowed_step sv e u (d\<lparr>auth_users := users\<rparr>))))
                           | other \<Rightarrow>
                               (error_response 500 ''email.toLowerCase is not a function'', d))))))"

text \<open>
  Modelled from the spec: the identity service behind \<open>createUser\<close> is not part of the
  repository. Creating an identity for an email that is already registered fails with a
  duplicate error; otherwise the credential (email and secret) is stored pre-verified under
  the id \<open>new_id\<close>.
\<close>

definition createUser_spec :: "uuid \<Rightarrow> auth_user list \<Rightarrow> string \<Rightarrow> json \<Rightarrow> string + (auth_user list \<times> uuid)" where
  "createUser_spec new_id users e p =
     (if e \<in> set (map auth_email users)
        then Inl ''A user with this email address has already been registered''
      else Inr (users @ [\<lparr>auth_id = new_id, auth_email = e, auth_password = p,
                          email_confirm = True\<rparr>], new_id))"


section \<open>Histories\<close>

text \<open>
  The statements a client or an edge function can commit, each one a transaction of its
  own, and the provisioning request; \<open>run\<close> executes a history from left to right and rolls a failing statement back.
\<close>

datatype stmt =
    Insert_booking booking_row
  | Update_booking uuid "uuid option" "uuid option"
  | Delete_booking uuid
  | Delete_user uuid
  | Delete_seat uuid
  | Freeze_seat uuid bool
  | Update_layout uuid int int
  | Generate_seats "int \<Rightarrow> int \<Rightarrow> uuid" uuid
  | Insert_allowed_user allowed_user_row
  | Update_allowed_user uuid "string option" "string option"
  | Delete_allowed_user uuid
  | Add_user services request

fun exec :: "stmt \<Rightarrow> db \<Rightarrow> sql_error + db" where
  "exec (Insert_booking NEW) d = insert_booking NEW d"
| "exec (Update_booking bid u s) d = update_booking bid u s d"
| "exec (Delete_booking bid) d = Inr (delete_bookings_where (\<lambda>b. b_id b = bid) d)"
| "exec (Delete_user uid) d = Inr (delete_user uid d)"
| "exec (Delete_seat sid) d = Inr (delete_seats_where (\<lambda>s. s_id s = sid) d)"
| "exec (Freeze_seat sid v) d = Inr (update_seat_is_booked sid v d)"
| "exec (Update_layout lid r c) d = update_layout lid r c d"
| "exec (Generate_seats g lid) d = generate_seats_for_layout g lid d"
| "exec (Insert_allowed_user NEW) d = insert_allowed_user NEW d"
| "exec (Update_allowed_user aid e u) d = update_allowed_user aid e u d"
| "exec (Delete_allowed_user aid) d = Inr (delete_allowed_user aid d)"
| "exec (Add_user sv req) d = Inr (snd (add_user sv req d))"

fun run :: "db \<Rightarrow> stmt list \<Rightarrow> db" where
  "run d [] = d"
| "run d (st # sts) = run (commit d (exec st d)) sts"

text \<open>
  The store right after the migration has no booking and no allow-list row, and every seat
  is free (\<open>is_booked\<close> defaults to \<open>false\<close>).
\<close>

definition initial :: "db \<Rightarrow> bool" where
  "initial d \<longleftrightarrow> bookings d = [] \<and> allowed_users d = [] \<and> list_all (\<lambda>s. \<not> is_booked s) (seats d)"

text \<open>The booking operations: the three statements on bookings and the two cascades.\<close>

fun booking_operation :: "stmt \<Rightarrow> bool" where
  "booking_operation (Insert_booking NEW) = True"
| "booking_operation (Update_booking bid u s) = True"
| "booking_operation (Delete_booking bid) = True"
| "booking_operation (Delete_user uid) = True"
| "booking_operation (Delete_seat sid) = True"
| "booking_operation st = False"


section \<open>Invariants\<close>

definition bookings_keys :: "db \<Rightarrow> bool" where
  "bookings_keys d \<longleftrightarrow>
     distinct (map b_id (bookings d)) \<and> distinct (map user_id (bookings d)) \<and>
     distinct (map seat_id (bookings d))"

definition seats_in_sync :: "db \<Rightarrow> bool" where
  "seats_in_sync d \<longleftrightarrow>
     (\<forall>s \<in> set (seats d). is_booked s \<longleftrightarrow> (\<exists>b \<in> set (bookings d). seat_id b = s_id s))"


definition allowed_users_keys :: "db \<Rightarrow> bool" where
  "allowed_users_keys d \<longleftrightarrow>
     distinct (map au_id (allowed_users d)) \<and> distinct (map email (allowed_users d)) \<and>
     distinct (map uti (allowed_users d))"

text \<open>The seats of a layout, and whether a seat lies in the grid of a layout row.\<close>

definition layout_seats :: "uuid \<Rightarrow> db \<Rightarrow> seat_row list" where
  "layout_seats lid d = filter (\<lambda>s. seat_layout_id s = lid) (seats d)"

definition in_grid :: "seat_layout_row \<Rightarrow> seat_row \<Rightarrow> bool" where
  "in_grid l s \<longleftrightarrow>
     1 \<le> row_num s \<and> row_num s \<le> total_rows l \<and> 1 \<le> col_num s \<and> col_num s \<le> total_columns l"

section \<open>Sample data\<close>

text \<open>
  A small store right after a migration with a 1 x 2 layout, two registered identities of
  which the first is an admin, and a short history on it.
\<close>

definition demo_db :: db where
  "demo_db =
     \<lparr>auth_users =
        [\<lparr>auth_id = 1, auth_email = ''ann@x.org'', auth_password = JStr ''s1'', email_confirm = True\<rparr>,
         \<lparr>auth_id = 2, auth_email = ''bob@x.org'', auth_password = JStr ''s2'', email_confirm = True\<rparr>],
      allowed_users = [],
      seat_layout = [\<lparr>sl_id = 10, name = ''Main Theatre'', total_rows = 1, total_columns = 2\<rparr>],
      seats =
        [\<lparr>s_id = 100, seat_layout_id = 10, row_num = 1, col_num = 1, is_booked = False\<rparr>,
         \<lparr>s_id = 101, seat_layout_id = 10, row_num = 1, col_num = 2, is_booked = False\<rparr>],
      user_roles = [\<lparr>ur_id = 50, role_user_id = 1, role = Admin\<rparr>],
      bookings = []\<rparr>"

definition demo_history :: "stmt list" where
  "demo_history =
     [Insert_booking \<lparr>b_id = 1000, user_id = 1, seat_id = 100\<rparr>,
      Insert_booking \<lparr>b_id = 1001, user_id = 2, seat_id = 100\<rparr>,
      Update_booking 1000 None (Some 101),
      Insert_booking \<lparr>b_id = 1002, user_id = 2, seat_id = 100\<rparr>,
      Delete_user 1]"


text \<open>The sample store once the first identity has booked seat 100.\<close>

definition demo_booked :: db where
  "demo_booked =
     demo_db\<lparr>seats :=
        [\<lparr>s_id = 100, seat_layout_id = 10, row_num = 1, col_num = 1, is_booked = True\<rparr>,
         \<lparr>s_id = 101, seat_layout_id = 10, row_num = 1, col_num = 2, is_booked = False\<rparr>],
      bookings := [\<lparr>b_id = 1000, user_id = 1, seat_id = 100\<rparr>]\<rparr>"

text \<open>The same store once the admin has moved that booking to seat 101.\<close>

definition demo_moved :: db where
  "demo_moved =
     demo_db\<lparr>seats :=
        [\<lparr>s_id = 100, seat_layout_id = 10, row_num = 1, col_num = 1, is_booked = False\<rparr>,
         \<lparr>s_id = 101, seat_layout_id = 10, row_num = 1, col_num = 2, is_booked = True\<rparr>],
      bookings := [\<lparr>b_id = 1000, user_id = 1, seat_id = 101\<rparr>]\<rparr>"

text \<open>
  Sample provisioning requests by the admin (identity 1) on a store whose allow-list has
  one row, with \<open>createUser_spec\<close> as the identity service.
\<close>

definition demo_services :: services where
  "demo_services =
     \<lparr>createUser = createUser_spec 3, text_of = (\<lambda>v. []), allowed_user_uuid = 71,
      user_role_uuid = 51, destructure_null_message = ''Cannot destructure null''\<rparr>"

definition demo_listed :: db where
  "demo_listed = demo_db\<lparr>allowed_users := [\<lparr>au_id = 70, email = ''ann@x.org'', uti = ''k1''\<rparr>]\<rparr>"

definition demo_request :: "json \<Rightarrow> request" where
  "demo_request b =
     \<lparr>req_method = ''POST'', caller = Some 1, role_lookup_fails = False, body = Inr b\<rparr>"

definition demo_body :: "string \<Rightarrow> string \<Rightarrow> json" where
  "demo_body e u = JObj [(''email'', JStr e), (''uti'', JStr u), (''role'', JStr ''user'')]"

definition demo_allow_history :: "stmt list" where
  "demo_allow_history =
     [Insert_allowed_user \<lparr>au_id = 70, email = ''ann@x.org'', uti = ''k1''\<rparr>,
      Insert_allowed_user \<lparr>au_id = 72, email = ''bob@x.org'', uti = ''k1''\<rparr>,
      Add_user demo_services (demo_request (demo_body ''Cy@X.org'' ''k1'')),
      Update_allowed_user 70 None (Some ''k2'')]"






definition demo_padded :: request where
  "demo_padded = demo_request (demo_body '' Cy@X.org '' ''k5'')"

text \<open>A request of the admin for a new email with the secret of the row already listed.\<close>

definition demo_same_secret :: request where
  "demo_same_secret = demo_request (demo_body ''Cy@X.org'' ''k1'')"

text \<open>
  The store \<open>demo_moved\<close> (seat 101 in cell (1, 2) is booked) after the admin has shrunk the
  layout to 1 x 1, and after the regeneration of its seats that follows, in which the
  one new seat gets the id 200.
\<close>

definition demo_shrunk :: db where
  "demo_shrunk = commit demo_moved (update_layout 10 1 1 demo_moved)"

definition demo_uuid :: "int \<Rightarrow> int \<Rightarrow> uuid" where
  "demo_uuid r c = 200"

definition demo_regenerated :: db where
  "demo_regenerated =
     demo_shrunk\<lparr>seats :=
        [\<lparr>s_id = 101, seat_layout_id = 10, row_num = 1, col_num = 2, is_booked = True\<rparr>,
         \<lparr>s_id = 200, seat_layout_id = 10, row_num = 1, col_num = 1, is_booked = False\<rparr>]\<rparr>"

definition demo_layout :: seat_layout_row where
  "demo_layout = \<lparr>sl_id = 10, name = ''Main Theatre'', total_rows = 1, total_columns = 1\<rparr>"


section \<open>Effects of the statements\<close>

lemma exec_trigger_fields [simp]:
  "bookings (exec_trigger us d) = bookings d"
  "auth_users (exec_trigger us d) = auth_users d"
  "allowed_users (exec_trigger us d) = allowed_users d"
  "seat_layout (exec_trigger us d) = seat_layout d"
  "user_roles (exec_trigger us d) = user_roles d"
  "seats (exec_trigger us d) = fold exec_seat_update us (seats d)"
  by (simp_all add: exec_trigger_def)

lemma fold_free_fields:
  "bookings (fold (\<lambda>OLD. exec_trigger (free_seat_on_delete OLD)) bs d) = bookings d \<and>
   auth_users (fold (\<lambda>OLD. exec_trigger (free_seat_on_delete OLD)) bs d) = auth_users d \<and>
   allowed_users (fold (\<lambda>OLD. exec_trigger (free_seat_on_delete OLD)) bs d) = allowed_users d \<and>
   seat_layout (fold (\<lambda>OLD. exec_trigger (free_seat_on_delete OLD)) bs d) = seat_layout d \<and>
   user_roles (fold (\<lambda>OLD. exec_trigger (free_seat_on_delete OLD)) bs d) = user_roles d"
  by (induction bs arbitrary: d) simp_all

lemma fold_free_seats:
  "seats (fold (\<lambda>OLD. exec_trigger (free_seat_on_delete OLD)) bs d) =
     map (\<lambda>s. if s_id s \<in> seat_id ` set bs then s\<lparr>is_booked := False\<rparr> else s) (seats d)"
proof (induction bs arbitrary: d)
  case Nil
  then show ?case by simp
next
  case (Cons b bs)
  show ?case
    by (simp add: Cons.IH) (auto simp: free_seat_on_delete_def)
qed

lemma delete_bookings_where_fields [simp]:
  "bookings (delete_bookings_where P d) = filter (\<lambda>b. \<not> P b) (bookings d)"
  "auth_users (delete_bookings_where P d) = auth_users d"
  "allowed_users (delete_bookings_where P d) = allowed_users d"
  "seat_layout (delete_bookings_where P d) = seat_layout d"
  "user_roles (delete_bookings_where P d) = user_roles d"
  "seats (delete_bookings_where P d) =
     map (\<lambda>s. if s_id s \<in> seat_id ` {b \<in> set (bookings d). P b} then s\<lparr>is_booked := False\<rparr> else s)
       (seats d)"
  by (simp_all add: delete_bookings_where_def fold_free_fields fold_free_seats)

lemma delete_seats_where_fields [simp]:
  "bookings (delete_seats_where P d) =
     filter (\<lambda>b. seat_id b \<notin> s_id ` {s \<in> set (seats d). P s}) (bookings d)"
  "auth_users (delete_seats_where P d) = auth_users d"
  "allowed_users (delete_seats_where P d) = allowed_users d"
  "seat_layout (delete_seats_where P d) = seat_layout d"
  "user_roles (delete_seats_where P d) = user_roles d"
  by (simp_all add: delete_seats_where_def)

lemma delete_user_fields [simp]:
  "bookings (delete_user uid d) = filter (\<lambda>b. user_id b \<noteq> uid) (bookings d)"
  "allowed_users (delete_user uid d) = allowed_users d"
  "seat_layout (delete_user uid d) = seat_layout d"
  by (simp_all add: delete_user_def)

lemma insert_seat_fields:
  "insert_seat_on_conflict_do_nothing NEW d = Inr d' \<Longrightarrow>
     bookings d' = bookings d \<and> allowed_users d' = allowed_users d \<and>
     seat_layout d' = seat_layout d \<and> auth_users d' = auth_users d \<and> user_roles d' = user_roles d"
  by (auto simp: insert_seat_on_conflict_do_nothing_def split: if_splits)

lemma insert_seats_fields:
  "insert_seats g lid cells d = Inr d' \<Longrightarrow>
     bookings d' = bookings d \<and> allowed_users d' = allowed_users d \<and>
     seat_layout d' = seat_layout d \<and> auth_users d' = auth_users d \<and> user_roles d' = user_roles d"
proof (induction g lid cells d rule: insert_seats.induct)
  case (1 g lid d)
  then show ?case by simp
next
  case (2 g lid cell cells d)
  then show ?case
    by (auto split: sum.splits dest!: insert_seat_fields)
qed

lemma generate_seats_bookings:
  assumes "generate_seats_for_layout g lid d = Inr d'"
  shows "\<exists>Q. bookings d' = filter Q (bookings d)" and "allowed_users d' = allowed_users d"
  using assms
  by (auto simp: generate_seats_for_layout_def split: list.splits dest!: insert_seats_fields)

lemma insert_allowed_step_fields [simp]:
  "bookings (insert_allowed_step sv e u d) = bookings d"
  "seats (insert_allowed_step sv e u d) = seats d"
  "seat_layout (insert_allowed_step sv e u d) = seat_layout d"
  "auth_users (insert_allowed_step sv e u d) = auth_users d"
  "user_roles (insert_allowed_step sv e u d) = user_roles d"
  by (simp_all add: insert_allowed_step_def insert_allowed_user_def commit_def)

lemma insert_role_step_fields [simp]:
  "bookings (insert_role_step sv n r d) = bookings d"
  "seats (insert_role_step sv n r d) = seats d"
  "seat_layout (insert_role_step sv n r d) = seat_layout d"
  "auth_users (insert_role_step sv n r d) = auth_users d"
  "allowed_users (insert_role_step sv n r d) = allowed_users d"
  by (simp_all add: insert_role_step_def insert_user_role_def commit_def split: option.splits)

lemma add_user_fields [simp]:
  "bookings (snd (add_user sv req d)) = bookings d"
  "seats (snd (add_user sv req d)) = seats d"
  "seat_layout (snd (add_user sv req d)) = seat_layout d"
  by (simp_all add: add_user_def Let_def
        split: option.splits json.splits sum.splits prod.splits)

lemma distinct_map_replace:
  assumes "distinct (map k bs)" and "distinct (map f bs)"
    and "\<forall>b \<in> set bs. k b \<noteq> i \<longrightarrow> f b \<noteq> f N"
  shows "distinct (map f (map (\<lambda>b. if k b = i then N else b) bs))"
  using assms
proof (induction bs)
  case Nil
  then show ?case by simp
next
  case (Cons a bs)
  show ?case
  proof (cases "k a = i")
    case True
    from Cons.prems(1) have "k a \<notin> k ` set bs" by simp
    with True have other: "\<forall>b \<in> set bs. k b \<noteq> i" by (metis imageI)
    then have same: "map (\<lambda>b. if k b = i then N else b) bs = bs"
      by (simp add: map_idI)
    from Cons.prems(3) other have "\<forall>b \<in> set bs. f b \<noteq> f N" by simp
    then have "f N \<notin> f ` set bs" by (metis imageE)
    with Cons.prems(2) True same show ?thesis by simp
  next
    case False
    from Cons.prems have tl: "distinct (map f (map (\<lambda>b. if k b = i then N else b) bs))"
      by (intro Cons.IH) simp_all
    from Cons.prems(3) False have neq: "f a \<noteq> f N" by simp
    from Cons.prems(2) have notin: "f a \<notin> f ` set bs" by simp
    have "f a \<notin> set (map f (map (\<lambda>b. if k b = i then N else b) bs))"
    proof
      assume "f a \<in> set (map f (map (\<lambda>b. if k b = i then N else b) bs))"
      then obtain b where b: "b \<in> set bs" and eq: "f a = f (if k b = i then N else b)"
        by auto
      show False
      proof (cases "k b = i")
        case True
        with eq neq show False by simp
      next
        case False
        with eq have "f a = f b" by simp
        with b notin show False by (metis imageI)
      qed
    qed
    with tl False show ?thesis by simp
  qed
qed

lemma update_booking_Inr:
  assumes "update_booking bid u s d = Inr d'"
    and "filter (\<lambda>b. b_id b = bid) (bookings d) = OLD # rest"
    and "NEW = booking_set OLD u s"
  shows "d' = exec_trigger (handle_booking_update OLD NEW)
                (d\<lparr>bookings := map (\<lambda>b. if b_id b = bid then NEW else b) (bookings d)\<rparr>)"
    and "seat_id NEW \<notin> set (map seat_id (filter (\<lambda>b. b_id b \<noteq> bid) (bookings d)))"
    and "user_id NEW \<notin> set (map user_id (filter (\<lambda>b. b_id b \<noteq> bid) (bookings d)))"
    and "user_id NEW \<in> set (map auth_id (auth_users d))"
    and "seat_id NEW \<in> set (map s_id (seats d))"
proof -
  from assms(1) have
    "(if seat_id NEW \<in> set (map seat_id (filter (\<lambda>b. b_id b \<noteq> bid) (bookings d)))
        then Inl (Unique_violation ''bookings_seat_id_key'')
      else if user_id NEW \<in> set (map user_id (filter (\<lambda>b. b_id b \<noteq> bid) (bookings d)))
        then Inl (Unique_violation ''bookings_user_id_key'')
      else if user_id NEW \<notin> set (map auth_id (auth_users d))
        then Inl (Foreign_key_violation ''bookings_user_id_fkey'')
      else if seat_id NEW \<notin> set (map s_id (seats d))
        then Inl (Foreign_key_violation ''bookings_seat_id_fkey'')
      else Inr (exec_trigger (handle_booking_update OLD NEW)
             (d\<lparr>bookings := map (\<lambda>b. if b_id b = bid then NEW else b) (bookings d)\<rparr>))) = Inr d'"
    unfolding update_booking_def assms(2) assms(3) Let_def by simp
  then show "d' = exec_trigger (handle_booking_update OLD NEW)
                (d\<lparr>bookings := map (\<lambda>b. if b_id b = bid then NEW else b) (bookings d)\<rparr>)"
    and "seat_id NEW \<notin> set (map seat_id (filter (\<lambda>b. b_id b \<noteq> bid) (bookings d)))"
    and "user_id NEW \<notin> set (map user_id (filter (\<lambda>b. b_id b \<noteq> bid) (bookings d)))"
    and "user_id NEW \<in> set (map auth_id (auth_users d))"
    and "seat_id NEW \<in> set (map s_id (seats d))"
    by (simp_all split: if_splits)
qed

lemma bookings_keys_preserved:
  assumes "bookings_keys d"
  shows "bookings_keys (commit d (exec st d))"
proof (cases st)
  case (Insert_booking NEW)
  with assms show ?thesis
    by (auto simp: commit_def insert_booking_def bookings_keys_def)
next
  case (Update_booking bid u s)
  show ?thesis
  proof (cases "update_booking bid u s d")
    case (Inl e)
    with assms Update_booking show ?thesis by (simp add: commit_def)
  next
    case (Inr d')
    show ?thesis
    proof (cases "filter (\<lambda>b. b_id b = bid) (bookings d)")
      case Nil
      with Inr assms Update_booking show ?thesis by (simp add: commit_def update_booking_def)
    next
      case (Cons OLD rest)
      define NEW where "NEW = booking_set OLD u s"
      from Cons have "OLD \<in> set (filter (\<lambda>b. b_id b = bid) (bookings d))" by simp
      then have old: "b_id OLD = bid" by simp
      then have nid: "b_id NEW = bid" by (simp add: NEW_def booking_set_def)
      note upd = update_booking_Inr [OF Inr Cons NEW_def]
      from upd(1) have bk: "bookings d' = map (\<lambda>b. if b_id b = bid then NEW else b) (bookings d)"
        by simp
      from upd(2) have ns: "\<forall>b \<in> set (bookings d). b_id b \<noteq> bid \<longrightarrow> seat_id b \<noteq> seat_id NEW"
        by (auto simp: image_iff)
      from upd(3) have nu: "\<forall>b \<in> set (bookings d). b_id b \<noteq> bid \<longrightarrow> user_id b \<noteq> user_id NEW"
        by (auto simp: image_iff)
      from assms have dk: "distinct (map b_id (bookings d))"
        and du: "distinct (map user_id (bookings d))" and ds: "distinct (map seat_id (bookings d))"
        by (simp_all add: bookings_keys_def)
      have "map b_id (bookings d') = map b_id (bookings d)"
        by (simp add: bk nid)
      with dk have d1: "distinct (map b_id (bookings d'))" by simp
      have d2: "distinct (map user_id (bookings d'))"
        unfolding bk by (rule distinct_map_replace [OF dk du nu])
      have d3: "distinct (map seat_id (bookings d'))"
        unfolding bk by (rule distinct_map_replace [OF dk ds ns])
      from d1 d2 d3 have "bookings_keys d'" unfolding bookings_keys_def by blast
      then show ?thesis using Inr Update_booking by (simp add: commit_def)
    qed
  qed
next
  case (Generate_seats g lid)
  show ?thesis
  proof (cases "generate_seats_for_layout g lid d")
    case (Inl e)
    with assms Generate_seats show ?thesis by (simp add: commit_def)
  next
    case (Inr d')
    from generate_seats_bookings(1) [OF Inr] obtain Q where "bookings d' = filter Q (bookings d)" ..
    with assms Inr Generate_seats show ?thesis
      by (simp add: commit_def bookings_keys_def distinct_map_filter)
  qed
next
  case (Insert_allowed_user NEW)
  with assms show ?thesis
    by (auto simp: commit_def insert_allowed_user_def bookings_keys_def)
next
  case (Update_allowed_user aid e u)
  with assms show ?thesis
    by (auto simp: commit_def update_allowed_user_def bookings_keys_def Let_def split: list.splits)
qed (use assms in \<open>simp_all add: commit_def bookings_keys_def distinct_map_filter
      update_seat_is_booked_def update_layout_def int4_def commit_def delete_allowed_user_def\<close>)


lemma bookings_keys_run: "bookings_keys d \<Longrightarrow> bookings_keys (run d sts)"
  by (induction sts arbitrary: d) (simp_all add: bookings_keys_preserved)

lemma distinct_map_count: "distinct (map f xs) \<Longrightarrow> length (filter (\<lambda>x. f x = v) xs) \<le> 1"
proof (induction xs)
  case Nil
  then show ?case by simp
next
  case (Cons a xs)
  show ?case
  proof (cases "f a = v")
    case True
    with Cons.prems have "\<forall>x \<in> set xs. f x \<noteq> v" by (metis distinct.simps(2) imageI list.simps(9) set_map)
    then have "filter (\<lambda>x. f x = v) xs = []" by (simp add: filter_empty_conv)
    with True show ?thesis by simp
  next
    case False
    with Cons show ?thesis by simp
  qed
qed

lemma distinct_map_eq:
  "distinct (map f xs) \<Longrightarrow> x \<in> set xs \<Longrightarrow> y \<in> set xs \<Longrightarrow> f x = f y \<Longrightarrow> x = y"
  by (meson distinct_map inj_onD)

lemma sync_delete_bookings:
  assumes "distinct (map seat_id (bookings d))" and "seats_in_sync d"
  shows "seats_in_sync (delete_bookings_where P d)"
  unfolding seats_in_sync_def
proof
  fix s' assume "s' \<in> set (seats (delete_bookings_where P d))"
  then obtain s where s: "s \<in> set (seats d)"
    and s': "s' = (if s_id s \<in> seat_id ` {b \<in> set (bookings d). P b} then s\<lparr>is_booked := False\<rparr> else s)"
    by auto
  from assms(2) s have sync: "is_booked s \<longleftrightarrow> (\<exists>b \<in> set (bookings d). seat_id b = s_id s)"
    by (simp add: seats_in_sync_def)
  show "is_booked s' \<longleftrightarrow> (\<exists>b \<in> set (bookings (delete_bookings_where P d)). seat_id b = s_id s')"
  proof (cases "s_id s \<in> seat_id ` {b \<in> set (bookings d). P b}")
    case True
    then obtain b where b: "b \<in> set (bookings d)" "P b" "seat_id b = s_id s" by auto
    have "\<not> (\<exists>b' \<in> set (bookings d). \<not> P b' \<and> seat_id b' = s_id s)"
    proof
      assume "\<exists>b' \<in> set (bookings d). \<not> P b' \<and> seat_id b' = s_id s"
      then obtain b' where b': "b' \<in> set (bookings d)" "\<not> P b'" "seat_id b' = s_id s" by auto
      with b have "b' = b" by (intro distinct_map_eq [OF assms(1)]) simp_all
      with b b' show False by simp
    qed
    with True s' show ?thesis by auto
  next
    case False
    then have "\<forall>b \<in> set (bookings d). seat_id b = s_id s \<longrightarrow> \<not> P b"
      by (auto simp: image_iff)
    with False s' sync show ?thesis by auto
  qed
qed

lemma sync_update_booking:
  assumes keys: "bookings_keys d" and sync: "seats_in_sync d"
    and upd: "update_booking bid u s d = Inr d'"
  shows "seats_in_sync d'"
proof (cases "filter (\<lambda>b. b_id b = bid) (bookings d)")
  case Nil
  with upd sync show ?thesis by (simp add: update_booking_def)
next
  case (Cons OLD rest)
  define NEW where "NEW = booking_set OLD u s"
  note r = update_booking_Inr [OF upd Cons NEW_def]
  from Cons have "OLD \<in> set (filter (\<lambda>b. b_id b = bid) (bookings d))" by simp
  then have old: "OLD \<in> set (bookings d)" "b_id OLD = bid" by simp_all
  from keys have dk: "distinct (map b_id (bookings d))" and ds: "distinct (map seat_id (bookings d))"
    by (simp_all add: bookings_keys_def)
  have only: "b = OLD" if "b \<in> set (bookings d)" "b_id b = bid" for b
    using distinct_map_eq [OF dk that(1) old(1)] that(2) old(2) by simp
  from r(1) have bk: "set (bookings d') = insert NEW {b \<in> set (bookings d). b_id b \<noteq> bid}"
    using old by auto
  from r(2) have fresh: "\<forall>b \<in> set (bookings d). b_id b \<noteq> bid \<longrightarrow> seat_id b \<noteq> seat_id NEW"
    by (auto simp: image_iff)
  have oldseat: "b_id b \<noteq> bid \<longrightarrow> seat_id b \<noteq> seat_id OLD" if "b \<in> set (bookings d)" for b
    using distinct_map_eq [OF ds that old(1)] old(2) by auto
  have ids: "(\<exists>b \<in> set (bookings d'). seat_id b = x) \<longleftrightarrow>
      x = seat_id NEW \<or> (x \<noteq> seat_id OLD \<and> (\<exists>b \<in> set (bookings d). seat_id b = x))" for x
  proof
    assume "\<exists>b \<in> set (bookings d'). seat_id b = x"
    then obtain b where "b \<in> set (bookings d')" "seat_id b = x" by auto
    with bk oldseat show "x = seat_id NEW \<or> (x \<noteq> seat_id OLD \<and> (\<exists>b \<in> set (bookings d). seat_id b = x))"
      by auto
  next
    assume a: "x = seat_id NEW \<or> (x \<noteq> seat_id OLD \<and> (\<exists>b \<in> set (bookings d). seat_id b = x))"
    show "\<exists>b \<in> set (bookings d'). seat_id b = x"
    proof (cases "x = seat_id NEW")
      case True
      with bk show ?thesis by auto
    next
      case False
      with a obtain b where b: "b \<in> set (bookings d)" "seat_id b = x" "x \<noteq> seat_id OLD" by auto
      with only have "b_id b \<noteq> bid" by auto
      with b bk show ?thesis by auto
    qed
  qed
  show ?thesis
  proof (cases "seat_id OLD = seat_id NEW")
    case True
    with r(1) have "seats d' = seats d" by (simp add: handle_booking_update_def)
    moreover from True old have "(\<exists>b \<in> set (bookings d). seat_id b = seat_id NEW)" by auto
    ultimately show ?thesis using sync ids True
      unfolding seats_in_sync_def by metis
  next
    case False
    with r(1) have st: "seats d' = map (\<lambda>s. if s_id s = seat_id NEW then s\<lparr>is_booked := True\<rparr>
          else if s_id s = seat_id OLD then s\<lparr>is_booked := False\<rparr> else s) (seats d)"
      by (auto simp: handle_booking_update_def)
    show ?thesis
      unfolding seats_in_sync_def
    proof
      fix s' assume "s' \<in> set (seats d')"
      with st obtain s0 where s0: "s0 \<in> set (seats d)"
        and s': "s' = (if s_id s0 = seat_id NEW then s0\<lparr>is_booked := True\<rparr>
          else if s_id s0 = seat_id OLD then s0\<lparr>is_booked := False\<rparr> else s0)" by auto
      from sync s0 have "is_booked s0 \<longleftrightarrow> (\<exists>b \<in> set (bookings d). seat_id b = s_id s0)"
        by (simp add: seats_in_sync_def)
      with s' False show "is_booked s' \<longleftrightarrow> (\<exists>b \<in> set (bookings d'). seat_id b = s_id s')"
        unfolding ids by auto
    qed
  qed
qed

lemma sync_preserved:
  assumes "bookings_keys d" and "seats_in_sync d" and "booking_operation st"
  shows "seats_in_sync (commit d (exec st d))"
proof (cases st)
  case (Insert_booking NEW)
  show ?thesis
  proof (cases "insert_booking NEW d")
    case (Inl e)
    with assms Insert_booking show ?thesis by (simp add: commit_def)
  next
    case (Inr d')
    then have d': "d' = exec_trigger (mark_seat_booked NEW) (d\<lparr>bookings := bookings d @ [NEW]\<rparr>)"
      by (simp add: insert_booking_def split: if_splits)
    from assms(2) have "seats_in_sync d'"
      unfolding seats_in_sync_def d' by (auto simp: mark_seat_booked_def)
    with Inr Insert_booking show ?thesis by (simp add: commit_def)
  qed
next
  case (Update_booking bid u s)
  show ?thesis
  proof (cases "update_booking bid u s d")
    case (Inl e)
    with assms Update_booking show ?thesis by (simp add: commit_def)
  next
    case (Inr d')
    with sync_update_booking [OF assms(1,2) Inr] Update_booking show ?thesis
      by (simp add: commit_def)
  qed
next
  case (Delete_booking bid)
  from assms(1) have "distinct (map seat_id (bookings d))" by (simp add: bookings_keys_def)
  from sync_delete_bookings [OF this assms(2)] Delete_booking show ?thesis
    by (simp add: commit_def)
next
  case (Delete_user uid)
  let ?d1 = "d\<lparr>auth_users := filter (\<lambda>u. auth_id u \<noteq> uid) (auth_users d),
          user_roles := filter (\<lambda>r. role_user_id r \<noteq> uid) (user_roles d)\<rparr>"
  from assms(1) have "distinct (map seat_id (bookings ?d1))" by (simp add: bookings_keys_def)
  moreover from assms(2) have "seats_in_sync ?d1" by (simp add: seats_in_sync_def)
  ultimately have "seats_in_sync (delete_bookings_where (\<lambda>b. user_id b = uid) ?d1)"
    by (rule sync_delete_bookings)
  with Delete_user show ?thesis by (simp add: commit_def delete_user_def)
next
  case (Delete_seat sid)
  let ?d1 = "d\<lparr>seats := filter (\<lambda>s. \<not> s_id s = sid) (seats d)\<rparr>"
  from assms(1) have "distinct (map seat_id (bookings ?d1))" by (simp add: bookings_keys_def)
  moreover from assms(2) have "seats_in_sync ?d1" by (simp add: seats_in_sync_def)
  ultimately have "seats_in_sync (delete_bookings_where
      (\<lambda>b. seat_id b \<in> set (map s_id (filter (\<lambda>s. s_id s = sid) (seats d)))) ?d1)"
    by (rule sync_delete_bookings)
  with Delete_seat show ?thesis by (simp add: commit_def delete_seats_where_def)
qed (use assms(3) in simp_all)


section \<open>Uniqueness of bookings\<close>

text \<open>
  Claim C2. In every state reachable from the migrated store by any history of statements,
  each \<open>user_id\<close> value occurs in at most one booking row and each \<open>seat_id\<close> value occurs
  in at most one booking row: the \<open>UNIQUE\<close> constraints refuse every insert and update that
  would add a second one, and no other statement adds bookings.
\<close>

theorem bookings_unique_reachable:
  assumes "initial d0"
  shows "(\<forall>u. length (filter (\<lambda>b. user_id b = u) (bookings (run d0 sts))) \<le> 1) \<and>
         (\<forall>s. length (filter (\<lambda>b. seat_id b = s) (bookings (run d0 sts))) \<le> 1)"
proof -
  from assms have "bookings_keys d0" by (simp add: initial_def bookings_keys_def)
  then have "bookings_keys (run d0 sts)" by (rule bookings_keys_run)
  then have du: "distinct (map user_id (bookings (run d0 sts)))"
    and ds: "distinct (map seat_id (bookings (run d0 sts)))"
    by (simp_all add: bookings_keys_def)
  from distinct_map_count [OF du] distinct_map_count [OF ds] show ?thesis by blast
qed

theorem bookings_unique_reachable_witness:
  "initial demo_db \<and>
   (\<forall>u. length (filter (\<lambda>b. user_id b = u) (bookings (run demo_db demo_history))) \<le> 1) \<and>
   (\<forall>s. length (filter (\<lambda>b. seat_id b = s) (bookings (run demo_db demo_history))) \<le> 1)"
proof -
  have i: "initial demo_db" by (simp add: initial_def demo_db_def)
  from bookings_unique_reachable [OF i, of demo_history] i show ?thesis by blast
qed


section \<open>The seat flag follows the bookings\<close>

lemma sync_run:
  "bookings_keys d \<Longrightarrow> seats_in_sync d \<Longrightarrow> list_all booking_operation sts \<Longrightarrow>
     seats_in_sync (run d sts)"
proof (induction sts arbitrary: d)
  case Nil
  then show ?case by simp
next
  case (Cons st sts)
  from Cons.prems have "bookings_keys (commit d (exec st d))"
    and "seats_in_sync (commit d (exec st d))"
    by (simp_all add: bookings_keys_preserved sync_preserved)
  with Cons show ?case by simp
qed

text \<open>
  Claim C1. In every state reached from the migrated store by booking operations (insert,
  update and delete of a booking, and the cascading delete of a user or of a seat), without
  the admin's freeze override, a seat has \<open>is_booked = true\<close> exactly when a booking row
  refers to it: the triggers \<open>mark_seat_booked\<close>, \<open>free_seat_on_delete\<close> and
  \<open>handle_booking_update\<close> keep the flag in step with the bookings.
\<close>

theorem seats_in_sync_reachable:
  assumes "initial d0" and "list_all booking_operation sts"
  shows "\<forall>s \<in> set (seats (run d0 sts)).
           is_booked s \<longleftrightarrow> (\<exists>b \<in> set (bookings (run d0 sts)). seat_id b = s_id s)"
proof -
  from assms(1) have "bookings_keys d0" and "seats_in_sync d0"
    by (simp_all add: initial_def bookings_keys_def seats_in_sync_def list_all_iff)
  then have "seats_in_sync (run d0 sts)" using assms(2) by (rule sync_run)
  then show ?thesis by (simp add: seats_in_sync_def)
qed

theorem seats_in_sync_reachable_witness:
  "initial demo_db \<and> list_all booking_operation demo_history \<and>
   seats_in_sync (run demo_db demo_history)"
proof -
  have i: "initial demo_db" by (simp add: initial_def demo_db_def)
  have h: "list_all booking_operation demo_history" by (simp add: demo_history_def)
  from seats_in_sync_reachable [OF i h] i h show ?thesis
    unfolding seats_in_sync_def by blast
qed


section \<open>The insert policy on bookings\<close>

lemma distinct_map_filter_single:
  "distinct (map f xs) \<Longrightarrow> x \<in> set xs \<Longrightarrow> filter (\<lambda>y. f y = f x) xs = [x]"
proof (induction xs)
  case Nil
  then show ?case by simp
next
  case (Cons a xs)
  show ?case
  proof (cases "x = a")
    case True
    from Cons.prems(1) have "f a \<notin> f ` set xs" by simp
    then have "\<forall>y \<in> set xs. f y \<noteq> f a" by (metis imageI)
    then have "filter (\<lambda>y. f y = f a) xs = []" by (simp add: filter_empty_conv)
    with True show ?thesis by simp
  next
    case False
    with Cons.prems have x: "x \<in> set xs" by simp
    from Cons.prems(1) have "f a \<notin> f ` set xs" by simp
    with x have "f a \<noteq> f x" by (metis imageI)
    with Cons.IH x Cons.prems(1) show ?thesis by simp
  qed
qed

lemma seat_is_available_iff:
  assumes "distinct (map s_id (seats d))"
  shows "seat_is_available d sid = Some True \<longleftrightarrow>
           (\<exists>s \<in> set (seats d). s_id s = sid \<and> \<not> is_booked s)"
proof (cases "\<exists>s \<in> set (seats d). s_id s = sid")
  case True
  then obtain s where s: "s \<in> set (seats d)" "s_id s = sid" by auto
  from distinct_map_filter_single [OF assms s(1)] s(2)
  have f: "filter (\<lambda>y. s_id y = sid) (seats d) = [s]" by simp
  have uniq: "s' = s" if "s' \<in> set (seats d)" "s_id s' = sid" for s'
  proof -
    from that have "s' \<in> set (filter (\<lambda>y. s_id y = sid) (seats d))" by simp
    then have "s' \<in> set [s]" unfolding f .
    then show ?thesis by simp
  qed
  from f have av: "seat_is_available d sid = Some (\<not> is_booked s)"
    by (simp add: seat_is_available_def)
  have "(\<exists>s' \<in> set (seats d). s_id s' = sid \<and> \<not> is_booked s') \<longleftrightarrow> \<not> is_booked s"
  proof
    assume "\<exists>s' \<in> set (seats d). s_id s' = sid \<and> \<not> is_booked s'"
    then obtain s' where s': "s' \<in> set (seats d)" "s_id s' = sid" "\<not> is_booked s'" by blast
    from uniq [OF s'(1,2)] s'(3) show "\<not> is_booked s" by simp
  next
    assume "\<not> is_booked s"
    with s show "\<exists>s' \<in> set (seats d). s_id s' = sid \<and> \<not> is_booked s'" by blast
  qed
  with av show ?thesis by simp
next
  case False
  then have "filter (\<lambda>y. s_id y = sid) (seats d) = []" by (simp add: filter_empty_conv)
  with False show ?thesis by (simp add: seat_is_available_def)
qed

lemma sql_and_True: "sql_and x y = Some True \<longleftrightarrow> x = Some True \<and> y = Some True"
  by (cases "(x, y)" rule: sql_and.cases) simp_all

lemma sql_or_True: "sql_or x y = Some True \<longleftrightarrow> x = Some True \<or> y = Some True"
  by (cases "(x, y)" rule: sql_or.cases) auto

text \<open>
  Claim C3. For an authenticated caller \<open>c\<close> without the admin role, the policies let the
  insert of a booking row \<open>B\<close> pass exactly when \<open>B.user_id = c\<close>, no booking of \<open>c\<close> exists
  and the seat \<open>B.seat_id\<close> exists with \<open>is_booked = false\<close>; every other insert is refused
  with a row-level-security error and no table changes. The seats' primary key is assumed.
\<close>

theorem booking_insert_policy:
  assumes "\<not> has_role d c Admin" and "distinct (map s_id (seats d))"
  shows "(bookings_insert_permitted d c B \<longleftrightarrow>
            user_id B = c \<and> \<not> (\<exists>b \<in> set (bookings d). user_id b = c) \<and>
            (\<exists>s \<in> set (seats d). s_id s = seat_id B \<and> \<not> is_booked s)) \<and>
         (\<not> bookings_insert_permitted d c B \<longrightarrow>
            client_insert_booking c B d = Inl (Rls_violation ''bookings'') \<and>
            commit d (client_insert_booking c B d) = d)"
proof -
  have "bookings_insert_permitted d c B \<longleftrightarrow>
          user_id B = c \<and> \<not> user_has_booking d c \<and> seat_is_available d (seat_id B) = Some True"
    using assms(1)
    by (simp add: bookings_insert_permitted_def users_can_book_def
          admins_can_manage_all_bookings_def sql_or_True sql_and_True)
  then have permitted: "bookings_insert_permitted d c B \<longleftrightarrow>
            user_id B = c \<and> \<not> (\<exists>b \<in> set (bookings d). user_id b = c) \<and>
            (\<exists>s \<in> set (seats d). s_id s = seat_id B \<and> \<not> is_booked s)"
    by (simp add: user_has_booking_def seat_is_available_iff [OF assms(2)])
  have refused: "\<not> bookings_insert_permitted d c B \<longrightarrow>
            client_insert_booking c B d = Inl (Rls_violation ''bookings'') \<and>
            commit d (client_insert_booking c B d) = d"
    by (simp add: client_insert_booking_def commit_def)
  from permitted refused show ?thesis by (rule conjI)
qed

theorem booking_insert_policy_witness:
  "\<not> has_role demo_booked 2 Admin \<and> distinct (map s_id (seats demo_booked)) \<and>
   bookings_insert_permitted demo_booked 2 \<lparr>b_id = 1001, user_id = 2, seat_id = 101\<rparr> \<and>
   \<not> bookings_insert_permitted demo_booked 2 \<lparr>b_id = 1001, user_id = 2, seat_id = 100\<rparr> \<and>
   client_insert_booking 2 \<lparr>b_id = 1001, user_id = 2, seat_id = 100\<rparr> demo_booked =
     Inl (Rls_violation ''bookings'')"
proof -
  let ?free = "\<lparr>b_id = 1001, user_id = 2, seat_id = 101\<rparr>"
  let ?taken = "\<lparr>b_id = 1001, user_id = 2, seat_id = 100\<rparr>"
  have r: "\<not> has_role demo_booked 2 Admin"
    by (simp add: has_role_def demo_booked_def demo_db_def)
  have k: "distinct (map s_id (seats demo_booked))"
    by (simp add: demo_booked_def demo_db_def)
  have yes: "user_id ?free = 2 \<and> \<not> (\<exists>b \<in> set (bookings demo_booked). user_id b = 2) \<and>
        (\<exists>s \<in> set (seats demo_booked). s_id s = seat_id ?free \<and> \<not> is_booked s)"
    by (simp add: demo_booked_def demo_db_def)
  have ok: "bookings_insert_permitted demo_booked 2 ?free"
    by (rule iffD2 [OF conjunct1 [OF booking_insert_policy [OF r k, of ?free]] yes])
  have taken: "\<not> (\<exists>s \<in> set (seats demo_booked). s_id s = seat_id ?taken \<and> \<not> is_booked s)"
    by (simp add: demo_booked_def demo_db_def)
  have no: "\<not> bookings_insert_permitted demo_booked 2 ?taken"
  proof
    assume "bookings_insert_permitted demo_booked 2 ?taken"
    from iffD1 [OF conjunct1 [OF booking_insert_policy [OF r k, of ?taken]] this]
    have "\<exists>s \<in> set (seats demo_booked). s_id s = seat_id ?taken \<and> \<not> is_booked s"
      by (elim conjE)
    with taken show False by (rule notE)
  qed
  from mp [OF conjunct2 [OF booking_insert_policy [OF r k, of ?taken]] no]
  have refused: "client_insert_booking 2 ?taken demo_booked = Inl (Rls_violation ''bookings'')"
    by (rule conjunct1)
  from r k ok no refused show ?thesis by (intro conjI)
qed


section \<open>Reassigning a booking\<close>

text \<open>
  Claim C5. An update of a booking row \<open>OLD\<close> to \<open>NEW\<close> is one statement with one resulting
  state \<open>d'\<close>. When the two rows differ in \<open>seat_id\<close>, the trigger issues the two seat
  updates, and \<open>d'\<close> holds the new booking row together with the old seat freed and the new
  seat occupied, every other seat as before. When they agree in \<open>seat_id\<close>, the trigger
  issues no seat update and the seats are untouched.
\<close>

theorem booking_update_moves_seat_flag:
  assumes "distinct (map b_id (bookings d))" and "OLD \<in> set (bookings d)"
    and "update_booking (b_id OLD) set_user set_seat d = Inr d'"
    and "NEW = booking_set OLD set_user set_seat"
  shows "commit d (exec (Update_booking (b_id OLD) set_user set_seat) d) = d' \<and>
         NEW \<in> set (bookings d') \<and>
         (seat_id OLD \<noteq> seat_id NEW \<longrightarrow>
            handle_booking_update OLD NEW =
              [Set_is_booked False (seat_id OLD), Set_is_booked True (seat_id NEW)] \<and>
            seats d' =
              map (\<lambda>x. if s_id x = seat_id NEW then x\<lparr>is_booked := True\<rparr>
                       else if s_id x = seat_id OLD then x\<lparr>is_booked := False\<rparr> else x)
                (seats d) \<and>
            (\<forall>x \<in> set (seats d').
               (s_id x = seat_id OLD \<longrightarrow> \<not> is_booked x) \<and>
               (s_id x = seat_id NEW \<longrightarrow> is_booked x))) \<and>
         (seat_id OLD = seat_id NEW \<longrightarrow>
            handle_booking_update OLD NEW = [] \<and> seats d' = seats d)"
proof -
  from distinct_map_filter_single [OF assms(1,2)]
  have row: "filter (\<lambda>b. b_id b = b_id OLD) (bookings d) = OLD # []" .
  note r = update_booking_Inr [OF assms(3) row assms(4)]
  have c1: "commit d (exec (Update_booking (b_id OLD) set_user set_seat) d) = d'"
    using assms(3) by (simp add: commit_def)
  from r(1) assms(2) have c2: "NEW \<in> set (bookings d')" by auto
  have c3: "seat_id OLD \<noteq> seat_id NEW \<longrightarrow>
            handle_booking_update OLD NEW =
              [Set_is_booked False (seat_id OLD), Set_is_booked True (seat_id NEW)] \<and>
            seats d' =
              map (\<lambda>x. if s_id x = seat_id NEW then x\<lparr>is_booked := True\<rparr>
                       else if s_id x = seat_id OLD then x\<lparr>is_booked := False\<rparr> else x)
                (seats d) \<and>
            (\<forall>x \<in> set (seats d').
               (s_id x = seat_id OLD \<longrightarrow> \<not> is_booked x) \<and>
               (s_id x = seat_id NEW \<longrightarrow> is_booked x))"
  proof
    assume differ: "seat_id OLD \<noteq> seat_id NEW"
    then have h: "handle_booking_update OLD NEW =
              [Set_is_booked False (seat_id OLD), Set_is_booked True (seat_id NEW)]"
      by (simp add: handle_booking_update_def)
    with r(1) have s: "seats d' =
              map (\<lambda>x. if s_id x = seat_id NEW then x\<lparr>is_booked := True\<rparr>
                       else if s_id x = seat_id OLD then x\<lparr>is_booked := False\<rparr> else x)
                (seats d)"
      by auto
    have "\<forall>x \<in> set (seats d').
               (s_id x = seat_id OLD \<longrightarrow> \<not> is_booked x) \<and>
               (s_id x = seat_id NEW \<longrightarrow> is_booked x)"
      unfolding s using differ by auto
    with h s show "handle_booking_update OLD NEW =
              [Set_is_booked False (seat_id OLD), Set_is_booked True (seat_id NEW)] \<and>
            seats d' =
              map (\<lambda>x. if s_id x = seat_id NEW then x\<lparr>is_booked := True\<rparr>
                       else if s_id x = seat_id OLD then x\<lparr>is_booked := False\<rparr> else x)
                (seats d) \<and>
            (\<forall>x \<in> set (seats d').
               (s_id x = seat_id OLD \<longrightarrow> \<not> is_booked x) \<and>
               (s_id x = seat_id NEW \<longrightarrow> is_booked x))"
      by (intro conjI)
  qed
  have c4: "seat_id OLD = seat_id NEW \<longrightarrow>
            handle_booking_update OLD NEW = [] \<and> seats d' = seats d"
    using r(1) by (simp add: handle_booking_update_def)
  from c1 c2 c3 c4 show ?thesis by (intro conjI)
qed

theorem booking_update_moves_seat_flag_witness:
  "distinct (map b_id (bookings demo_booked)) \<and>
   \<lparr>b_id = 1000, user_id = 1, seat_id = 100\<rparr> \<in> set (bookings demo_booked) \<and>
   update_booking 1000 None (Some 101) demo_booked = Inr demo_moved \<and>
   handle_booking_update \<lparr>b_id = 1000, user_id = 1, seat_id = 100\<rparr>
       \<lparr>b_id = 1000, user_id = 1, seat_id = 101\<rparr> =
     [Set_is_booked False 100, Set_is_booked True 101] \<and>
   \<lparr>b_id = 1000, user_id = 1, seat_id = 101\<rparr> \<in> set (bookings demo_moved) \<and>
   map is_booked (seats demo_moved) = [False, True]"
proof -
  let ?OLD = "\<lparr>b_id = 1000, user_id = 1, seat_id = 100\<rparr>"
  let ?NEW = "\<lparr>b_id = 1000, user_id = 1, seat_id = 101\<rparr>"
  have k: "distinct (map b_id (bookings demo_booked))"
    by (simp add: demo_booked_def demo_db_def)
  have m: "?OLD \<in> set (bookings demo_booked)"
    by (simp add: demo_booked_def demo_db_def)
  have u: "update_booking (b_id ?OLD) None (Some 101) demo_booked = Inr demo_moved"
    by (simp add: update_booking_def booking_set_def handle_booking_update_def exec_trigger_def
          demo_booked_def demo_moved_def demo_db_def)
  have n: "?NEW = booking_set ?OLD None (Some 101)"
    by (simp add: booking_set_def)
  have differ: "seat_id ?OLD \<noteq> seat_id ?NEW" by simp
  note t = booking_update_moves_seat_flag [OF k m u n]
  have in_new: "?NEW \<in> set (bookings demo_moved)"
    by (rule conjunct1 [OF conjunct2 [OF t]])
  from mp [OF conjunct1 [OF conjunct2 [OF conjunct2 [OF t]]] differ]
  have "handle_booking_update ?OLD ?NEW =
          [Set_is_booked False (seat_id ?OLD), Set_is_booked True (seat_id ?NEW)] \<and>
     seats demo_moved =
       map (\<lambda>x. if s_id x = seat_id ?NEW then x\<lparr>is_booked := True\<rparr>
                else if s_id x = seat_id ?OLD then x\<lparr>is_booked := False\<rparr> else x)
         (seats demo_booked)"
    by (intro conjI) (elim conjE, assumption)+
  then have h: "handle_booking_update ?OLD ?NEW = [Set_is_booked False 100, Set_is_booked True 101]"
    and s: "map is_booked (seats demo_moved) = [False, True]"
    by (simp_all add: demo_booked_def demo_db_def)
  from u have u': "update_booking 1000 None (Some 101) demo_booked = Inr demo_moved" by simp
  from k m u' h in_new s show ?thesis by (intro conjI)
qed


section \<open>The allow-list's unique secret\<close>

lemma update_booking_allowed_users:
  "update_booking bid u s d = Inr d' \<Longrightarrow> allowed_users d' = allowed_users d"
  by (cases "filter (\<lambda>b. b_id b = bid) (bookings d)")
     (auto simp: update_booking_def Let_def split: if_splits)

lemma insert_allowed_user_keys:
  "allowed_users_keys d \<Longrightarrow> allowed_users_keys (commit d (insert_allowed_user NEW d))"
  by (simp add: allowed_users_keys_def insert_allowed_user_def commit_def)

lemma allowed_users_keys_cong:
  "allowed_users d' = allowed_users d \<Longrightarrow> allowed_users_keys d' = allowed_users_keys d"
  by (simp add: allowed_users_keys_def)

lemma insert_allowed_step_keys:
  assumes "allowed_users_keys d"
  shows "allowed_users_keys (insert_allowed_step sv e u (d\<lparr>auth_users := users\<rparr>))"
proof -
  from assms have "allowed_users_keys (d\<lparr>auth_users := users\<rparr>)"
    by (simp add: allowed_users_keys_def)
  then show ?thesis
    unfolding insert_allowed_step_def by (rule insert_allowed_user_keys)
qed

lemma add_user_keys:
  assumes "allowed_users_keys d"
  shows "allowed_users_keys (snd (add_user sv req d))"
proof -
  have step: "allowed_users_keys (insert_role_step sv n r (insert_allowed_step sv e u (d\<lparr>auth_users := users\<rparr>)))"
    for n r e u users
    using insert_allowed_step_keys [where d = d and sv = sv and e = e and u = u and users = users] assms
    by (simp add: allowed_users_keys_def)
  show ?thesis
    using assms step
    by (simp add: add_user_def Let_def split: option.splits json.splits sum.splits prod.splits)
qed

lemma update_allowed_user_keys:
  assumes "allowed_users_keys d" and "update_allowed_user aid e u d = Inr d'"
  shows "allowed_users_keys d'"
proof (cases "filter (\<lambda>a. au_id a = aid) (allowed_users d)")
  case Nil
  with assms show ?thesis by (simp add: update_allowed_user_def)
next
  case (Cons OLD rest)
  define NEW where "NEW = OLD\<lparr>email := (case e of None \<Rightarrow> email OLD | Some x \<Rightarrow> x),
                         uti := (case u of None \<Rightarrow> uti OLD | Some x \<Rightarrow> x)\<rparr>"
  from Cons have "OLD \<in> set (filter (\<lambda>a. au_id a = aid) (allowed_users d))" by simp
  then have "au_id OLD = aid" by simp
  then have nid: "au_id NEW = aid" by (simp add: NEW_def)
  from assms(2) have
    "(if email NEW \<in> set (map email (filter (\<lambda>a. au_id a \<noteq> aid) (allowed_users d)))
        then Inl (Unique_violation ''allowed_users_email_key'')
      else if uti NEW \<in> set (map uti (filter (\<lambda>a. au_id a \<noteq> aid) (allowed_users d)))
        then Inl (Unique_violation ''allowed_users_uti_key'')
      else Inr (d\<lparr>allowed_users :=
                   map (\<lambda>a. if au_id a = aid then NEW else a) (allowed_users d)\<rparr>)) = Inr d'"
    unfolding update_allowed_user_def Cons NEW_def Let_def by simp
  then have au: "allowed_users d' = map (\<lambda>a. if au_id a = aid then NEW else a) (allowed_users d)"
    and ne: "email NEW \<notin> set (map email (filter (\<lambda>a. au_id a \<noteq> aid) (allowed_users d)))"
    and nu: "uti NEW \<notin> set (map uti (filter (\<lambda>a. au_id a \<noteq> aid) (allowed_users d)))"
    by (auto split: if_splits)
  from ne have ne': "\<forall>a \<in> set (allowed_users d). au_id a \<noteq> aid \<longrightarrow> email a \<noteq> email NEW"
    by (auto simp: image_iff)
  from nu have nu': "\<forall>a \<in> set (allowed_users d). au_id a \<noteq> aid \<longrightarrow> uti a \<noteq> uti NEW"
    by (auto simp: image_iff)
  from assms(1) have dk: "distinct (map au_id (allowed_users d))"
    and de: "distinct (map email (allowed_users d))" and du: "distinct (map uti (allowed_users d))"
    by (simp_all add: allowed_users_keys_def)
  have "map au_id (allowed_users d') = map au_id (allowed_users d)"
    by (simp add: au nid)
  with dk have d1: "distinct (map au_id (allowed_users d'))" by simp
  have d2: "distinct (map email (allowed_users d'))"
    unfolding au by (rule distinct_map_replace [OF dk de ne'])
  have d3: "distinct (map uti (allowed_users d'))"
    unfolding au by (rule distinct_map_replace [OF dk du nu'])
  from d1 d2 d3 show ?thesis unfolding allowed_users_keys_def by (intro conjI)
qed

lemma allowed_users_keys_preserved:
  assumes "allowed_users_keys d"
  shows "allowed_users_keys (commit d (exec st d))"
proof (cases st)
  case (Insert_booking NEW)
  with assms show ?thesis
    by (simp add: commit_def insert_booking_def allowed_users_keys_def)
next
  case (Update_booking bid u s)
  show ?thesis
  proof (cases "update_booking bid u s d")
    case (Inl e)
    with assms Update_booking show ?thesis by (simp add: commit_def)
  next
    case (Inr d')
    from update_booking_allowed_users [OF Inr] assms Inr Update_booking show ?thesis
      by (simp add: commit_def allowed_users_keys_def)
  qed
next
  case (Generate_seats g lid)
  show ?thesis
  proof (cases "generate_seats_for_layout g lid d")
    case (Inl e)
    with assms Generate_seats show ?thesis by (simp add: commit_def)
  next
    case (Inr d')
    from generate_seats_bookings(2) [OF Inr] assms Inr Generate_seats show ?thesis
      by (simp add: commit_def allowed_users_keys_def)
  qed
next
  case (Insert_allowed_user NEW)
  with insert_allowed_user_keys [OF assms] show ?thesis by simp
next
  case (Update_allowed_user aid e u)
  show ?thesis
  proof (cases "update_allowed_user aid e u d")
    case (Inl err)
    with assms Update_allowed_user show ?thesis by (simp add: commit_def)
  next
    case (Inr d')
    from update_allowed_user_keys [OF assms Inr] Inr Update_allowed_user show ?thesis
      by (simp add: commit_def)
  qed
next
  case (Add_user sv req)
  with add_user_keys [OF assms] show ?thesis by (simp add: commit_def)
qed (use assms in \<open>simp_all add: commit_def allowed_users_keys_def distinct_map_filter
      update_seat_is_booked_def update_layout_def int4_def commit_def delete_allowed_user_def\<close>)

lemma allowed_users_keys_run: "allowed_users_keys d \<Longrightarrow> allowed_users_keys (run d sts)"
  by (induction sts arbitrary: d) (simp_all add: allowed_users_keys_preserved)

text \<open>
  Claim C10. The column \<open>uti\<close> of \<open>allowed_users\<close> is \<open>UNIQUE\<close>: in every state reachable
  from the migrated store by any history of statements and provisioning requests, each
  secret occurs in at most one allow-list row, and an insert of a row whose secret is
  already in the table fails; with a fresh id and a fresh email the error is the violation
  of the unique constraint on \<open>uti\<close>.
\<close>

theorem allowed_users_uti_unique:
  assumes "initial d0"
  shows "(\<forall>u. length (filter (\<lambda>a. uti a = u) (allowed_users (run d0 sts))) \<le> 1) \<and>
         (\<forall>NEW. uti NEW \<in> set (map uti (allowed_users (run d0 sts))) \<longrightarrow>
            (\<exists>e. insert_allowed_user NEW (run d0 sts) = Inl e) \<and>
            (au_id NEW \<notin> set (map au_id (allowed_users (run d0 sts))) \<and>
             email NEW \<notin> set (map email (allowed_users (run d0 sts))) \<longrightarrow>
               insert_allowed_user NEW (run d0 sts) =
                 Inl (Unique_violation ''allowed_users_uti_key'')))"
proof -
  from assms have "allowed_users_keys d0" by (simp add: initial_def allowed_users_keys_def)
  then have "allowed_users_keys (run d0 sts)" by (rule allowed_users_keys_run)
  then have "distinct (map uti (allowed_users (run d0 sts)))"
    by (simp add: allowed_users_keys_def)
  from distinct_map_count [OF this]
  have a: "\<forall>u. length (filter (\<lambda>a. uti a = u) (allowed_users (run d0 sts))) \<le> 1" by blast
  have b: "\<forall>NEW. uti NEW \<in> set (map uti (allowed_users (run d0 sts))) \<longrightarrow>
            (\<exists>e. insert_allowed_user NEW (run d0 sts) = Inl e) \<and>
            (au_id NEW \<notin> set (map au_id (allowed_users (run d0 sts))) \<and>
             email NEW \<notin> set (map email (allowed_users (run d0 sts))) \<longrightarrow>
               insert_allowed_user NEW (run d0 sts) =
                 Inl (Unique_violation ''allowed_users_uti_key''))"
    by (simp add: insert_allowed_user_def)
  from a b show ?thesis by (rule conjI)
qed

theorem allowed_users_uti_unique_witness:
  "initial demo_db \<and>
   (\<forall>u. length (filter (\<lambda>a. uti a = u) (allowed_users (run demo_db demo_allow_history))) \<le> 1) \<and>
   map uti (allowed_users (run demo_db demo_allow_history)) = [''k2''] \<and>
   insert_allowed_user \<lparr>au_id = 73, email = ''dan@x.org'', uti = ''k2''\<rparr>
       (run demo_db demo_allow_history) =
     Inl (Unique_violation ''allowed_users_uti_key'')"
proof -
  let ?NEW = "\<lparr>au_id = 73, email = ''dan@x.org'', uti = ''k2''\<rparr>"
  have i: "initial demo_db" by (simp add: initial_def demo_db_def)
  note t = allowed_users_uti_unique [OF i, of demo_allow_history]
  have rows: "allowed_users (run demo_db demo_allow_history) =
      [\<lparr>au_id = 70, email = ''ann@x.org'', uti = ''k2''\<rparr>]"
    by (simp add: demo_allow_history_def demo_db_def commit_def insert_allowed_user_def
          update_allowed_user_def add_user_def demo_services_def demo_request_def demo_body_def
          admin_role_lookup_def createUser_spec_def toLowerCase_def lower_char_def
          insert_allowed_step_def insert_role_step_def allowed_user_values_def role_or_user_def
          insert_user_role_def)
  then have used: "uti ?NEW \<in> set (map uti (allowed_users (run demo_db demo_allow_history)))"
    and fresh: "au_id ?NEW \<notin> set (map au_id (allowed_users (run demo_db demo_allow_history))) \<and>
             email ?NEW \<notin> set (map email (allowed_users (run demo_db demo_allow_history)))"
    by simp_all
  from spec [OF conjunct2 [OF t], of ?NEW] used
  have "(\<exists>e. insert_allowed_user ?NEW (run demo_db demo_allow_history) = Inl e) \<and>
            (au_id ?NEW \<notin> set (map au_id (allowed_users (run demo_db demo_allow_history))) \<and>
             email ?NEW \<notin> set (map email (allowed_users (run demo_db demo_allow_history))) \<longrightarrow>
               insert_allowed_user ?NEW (run demo_db demo_allow_history) =
                 Inl (Unique_violation ''allowed_users_uti_key''))"
    by (rule mp)
  then have "au_id ?NEW \<notin> set (map au_id (allowed_users (run demo_db demo_allow_history))) \<and>
             email ?NEW \<notin> set (map email (allowed_users (run demo_db demo_allow_history))) \<longrightarrow>
               insert_allowed_user ?NEW (run demo_db demo_allow_history) =
                 Inl (Unique_violation ''allowed_users_uti_key'')"
    by (rule conjunct2)
  then have fails: "insert_allowed_user ?NEW (run demo_db demo_allow_history) =
                 Inl (Unique_violation ''allowed_users_uti_key'')"
    using fresh by (rule mp)
  from rows have utis: "map uti (allowed_users (run demo_db demo_allow_history)) = [''k2'']"
    by simp
  from i conjunct1 [OF t] utis fails show ?thesis by (intro conjI)
qed


section \<open>The provisioning handler\<close>






lemma add_user_provisions:
  assumes "req_method req \<noteq> ''OPTIONS''" and "caller req = Some uid"
    and "admin_role_lookup req d uid = Some r" and "body req = Inr b"
    and "get_prop b ''email'' = Some (JStr e)" and "e \<noteq> []"
    and "get_prop b ''uti'' = Some u" and "truthy (Some u)"
    and "createUser sv (auth_users d) (toLowerCase e) u = Inr (users, new_id)"
  shows "add_user sv req d =
           (success_response,
            insert_role_step sv new_id (get_prop b ''role'')
              (insert_allowed_step sv e u (d\<lparr>auth_users := users\<rparr>)))"
proof -
  from assms(5) obtain kvs where "b = JObj kvs" by (cases b) simp_all
  with assms show ?thesis by (simp add: add_user_def Let_def)
qed

text \<open>
  Claim C9. Once the identity has been created, the handler answers 200 with
  \<open>{success: true}\<close> whatever the two inserts do: when the insert into \<open>allowed_users\<close> fails
  (a secret or an email already in the table, for example) the allow-list is left as it was,
  when the insert into \<open>user_roles\<close> fails (or the role is no label of the enum) the roles
  are left as they were, and the new identity stays in either case.
\<close>

theorem add_user_success_despite_failed_inserts:
  assumes "req_method req \<noteq> ''OPTIONS''" and "caller req = Some uid"
    and "admin_role_lookup req d uid = Some r" and "body req = Inr b"
    and "get_prop b ''email'' = Some (JStr e)" and "e \<noteq> []"
    and "get_prop b ''uti'' = Some u" and "truthy (Some u)"
    and "createUser sv (auth_users d) (toLowerCase e) u = Inr (users, new_id)"
  shows "fst (add_user sv req d) = success_response \<and>
         status (fst (add_user sv req d)) = 200 \<and>
         auth_users (snd (add_user sv req d)) = users \<and>
         (\<forall>err. insert_allowed_user (allowed_user_values sv e u) (d\<lparr>auth_users := users\<rparr>) = Inl err \<longrightarrow>
            allowed_users (snd (add_user sv req d)) = allowed_users d) \<and>
         (app_role_of (role_or_user (get_prop b ''role'')) = None \<longrightarrow>
            user_roles (snd (add_user sv req d)) = user_roles d) \<and>
         (\<forall>ro err. app_role_of (role_or_user (get_prop b ''role'')) = Some ro \<and>
            insert_user_role \<lparr>ur_id = user_role_uuid sv, role_user_id = new_id, role = ro\<rparr>
              (insert_allowed_step sv e u (d\<lparr>auth_users := users\<rparr>)) = Inl err \<longrightarrow>
            user_roles (snd (add_user sv req d)) = user_roles d)"
proof -
  note p = add_user_provisions [OF assms]
  have c1: "fst (add_user sv req d) = success_response" by (simp add: p)
  have c2: "status (fst (add_user sv req d)) = 200" by (simp add: p success_response_def)
  have c3: "auth_users (snd (add_user sv req d)) = users" by (simp add: p)
  have c4: "\<forall>err. insert_allowed_user (allowed_user_values sv e u) (d\<lparr>auth_users := users\<rparr>) = Inl err \<longrightarrow>
            allowed_users (snd (add_user sv req d)) = allowed_users d"
    by (simp add: p insert_allowed_step_def commit_def)
  have c5: "app_role_of (role_or_user (get_prop b ''role'')) = None \<longrightarrow>
            user_roles (snd (add_user sv req d)) = user_roles d"
    by (simp add: p insert_role_step_def)
  have c6: "\<forall>ro err. app_role_of (role_or_user (get_prop b ''role'')) = Some ro \<and>
            insert_user_role \<lparr>ur_id = user_role_uuid sv, role_user_id = new_id, role = ro\<rparr>
              (insert_allowed_step sv e u (d\<lparr>auth_users := users\<rparr>)) = Inl err \<longrightarrow>
            user_roles (snd (add_user sv req d)) = user_roles d"
    by (simp add: p insert_role_step_def commit_def)
  from c1 c2 c3 c4 c5 c6 show ?thesis by (intro conjI)
qed

theorem add_user_success_despite_failed_inserts_witness:
  "req_method demo_same_secret \<noteq> ''OPTIONS'' \<and> caller demo_same_secret = Some 1 \<and>
   admin_role_lookup demo_same_secret demo_listed 1 = Some \<lparr>ur_id = 50, role_user_id = 1, role = Admin\<rparr> \<and>
   body demo_same_secret = Inr (demo_body ''Cy@X.org'' ''k1'') \<and>
   get_prop (demo_body ''Cy@X.org'' ''k1'') ''email'' = Some (JStr ''Cy@X.org'') \<and>
   ''Cy@X.org'' \<noteq> [] \<and>
   get_prop (demo_body ''Cy@X.org'' ''k1'') ''uti'' = Some (JStr ''k1'') \<and>
   truthy (Some (JStr ''k1'')) \<and>
   createUser demo_services (auth_users demo_listed) (toLowerCase ''Cy@X.org'') (JStr ''k1'') =
     Inr (auth_users demo_listed @
          [\<lparr>auth_id = 3, auth_email = ''cy@x.org'', auth_password = JStr ''k1'',
            email_confirm = True\<rparr>], 3) \<and>
   insert_allowed_user (allowed_user_values demo_services ''Cy@X.org'' (JStr ''k1''))
       (demo_listed\<lparr>auth_users := auth_users demo_listed @
          [\<lparr>auth_id = 3, auth_email = ''cy@x.org'', auth_password = JStr ''k1'',
            email_confirm = True\<rparr>]\<rparr>) =
     Inl (Unique_violation ''allowed_users_uti_key'') \<and>
   status (fst (add_user demo_services demo_same_secret demo_listed)) = 200 \<and>
   allowed_users (snd (add_user demo_services demo_same_secret demo_listed)) =
     allowed_users demo_listed \<and>
   auth_users (snd (add_user demo_services demo_same_secret demo_listed)) =
     auth_users demo_listed @
       [\<lparr>auth_id = 3, auth_email = ''cy@x.org'', auth_password = JStr ''k1'',
         email_confirm = True\<rparr>]"
proof -
  let ?b = "demo_body ''Cy@X.org'' ''k1''"
  let ?r = "\<lparr>ur_id = 50, role_user_id = 1, role = Admin\<rparr>"
  let ?users = "auth_users demo_listed @
       [\<lparr>auth_id = 3, auth_email = ''cy@x.org'', auth_password = JStr ''k1'',
         email_confirm = True\<rparr>]"
  have h1: "req_method demo_same_secret \<noteq> ''OPTIONS''"
    by (simp add: demo_same_secret_def demo_request_def)
  have h2: "caller demo_same_secret = Some 1"
    by (simp add: demo_same_secret_def demo_request_def)
  have h3: "admin_role_lookup demo_same_secret demo_listed 1 = Some ?r"
    by (simp add: admin_role_lookup_def demo_same_secret_def demo_request_def demo_listed_def
          demo_db_def)
  have h4: "body demo_same_secret = Inr ?b"
    by (simp add: demo_same_secret_def demo_request_def)
  have h5: "get_prop ?b ''email'' = Some (JStr ''Cy@X.org'')" by (simp add: demo_body_def)
  have h6: "''Cy@X.org'' \<noteq> []" by simp
  have h7: "get_prop ?b ''uti'' = Some (JStr ''k1'')" by (simp add: demo_body_def)
  have h8: "truthy (Some (JStr ''k1''))" by simp
  have h9: "createUser demo_services (auth_users demo_listed) (toLowerCase ''Cy@X.org'') (JStr ''k1'') =
     Inr (?users, 3)"
    by (simp add: demo_services_def createUser_spec_def toLowerCase_def lower_char_def
          demo_listed_def demo_db_def)
  have f: "insert_allowed_user (allowed_user_values demo_services ''Cy@X.org'' (JStr ''k1''))
       (demo_listed\<lparr>auth_users := ?users\<rparr>) = Inl (Unique_violation ''allowed_users_uti_key'')"
    by (simp add: insert_allowed_user_def allowed_user_values_def demo_services_def
          toLowerCase_def lower_char_def demo_listed_def demo_db_def)
  note t = add_user_success_despite_failed_inserts [OF h1 h2 h3 h4 h5 h6 h7 h8 h9]
  have s: "status (fst (add_user demo_services demo_same_secret demo_listed)) = 200"
    by (rule conjunct1 [OF conjunct2 [OF t]])
  have a: "auth_users (snd (add_user demo_services demo_same_secret demo_listed)) = ?users"
    by (rule conjunct1 [OF conjunct2 [OF conjunct2 [OF t]]])
  have l: "allowed_users (snd (add_user demo_services demo_same_secret demo_listed)) =
     allowed_users demo_listed"
    by (rule mp [OF spec [OF conjunct1 [OF conjunct2 [OF conjunct2 [OF conjunct2 [OF t]]]]] f])
  from h1 h2 h3 h4 h5 h6 h7 h8 h9 f s l a show ?thesis by (intro conjI)
qed


text \<open>
  Claim C8 says that the handler lower-cases and trims the email before it stores it. The
  handler calls \<open>toLowerCase\<close> only: for the email \<open>" Cy@X.org "\<close> the identity and the
  allow-list row keep the space at each end, whereas the login form looks the trimmed,
  lower-cased email up.
\<close>

theorem add_user_stores_untrimmed_email:
  "status (fst (add_user demo_services demo_padded demo_listed)) = 200 \<and>
   map email (allowed_users (snd (add_user demo_services demo_padded demo_listed))) =
     [''ann@x.org'', '' cy@x.org ''] \<and>
   map auth_email (auth_users (snd (add_user demo_services demo_padded demo_listed))) =
     [''ann@x.org'', ''bob@x.org'', '' cy@x.org ''] \<and>
   toLowerCase (trim '' Cy@X.org '') = ''cy@x.org''"
  by (simp add: add_user_def demo_padded_def demo_request_def demo_body_def demo_services_def
        demo_listed_def demo_db_def admin_role_lookup_def createUser_spec_def toLowerCase_def
        lower_char_def trim_def white_space_def insert_allowed_step_def insert_role_step_def
        allowed_user_values_def role_or_user_def insert_allowed_user_def insert_user_role_def
        commit_def success_response_def)

theorem add_user_stores_untrimmed_email_witness:
  "map email (allowed_users (snd (add_user demo_services demo_padded demo_listed))) =
     [''ann@x.org'', '' cy@x.org '']"
  by (rule conjunct1 [OF conjunct2 [OF add_user_stores_untrimmed_email]])


section \<open>Regenerating the seats of a layout\<close>

lemma delete_seats_where_seats:
  assumes "distinct (map s_id (seats d))"
  shows "seats (delete_seats_where P d) = filter (\<lambda>s. \<not> P s) (seats d)"
proof -
  let ?gone = "set (map s_id (filter P (seats d)))"
  have "seats (delete_seats_where P d) =
      map (\<lambda>s. if s_id s \<in> seat_id ` {b \<in> set (bookings d). seat_id b \<in> ?gone}
                then s\<lparr>is_booked := False\<rparr> else s) (filter (\<lambda>s. \<not> P s) (seats d))"
    by (simp add: delete_seats_where_def)
  also have "\<dots> = filter (\<lambda>s. \<not> P s) (seats d)"
  proof (rule map_idI)
    fix s assume "s \<in> set (filter (\<lambda>s. \<not> P s) (seats d))"
    then have s: "s \<in> set (seats d)" "\<not> P s" by simp_all
    have "s_id s \<notin> ?gone"
    proof
      assume "s_id s \<in> ?gone"
      then obtain s' where s': "s' \<in> set (seats d)" "P s'" "s_id s' = s_id s" by auto
      from distinct_map_eq [OF assms s'(1) s(1) s'(3)] s'(2) s(2) show False by simp
    qed
    then have "s_id s \<notin> seat_id ` {b \<in> set (bookings d). seat_id b \<in> ?gone}" by auto
    then show "(if s_id s \<in> seat_id ` {b \<in> set (bookings d). seat_id b \<in> ?gone}
                then s\<lparr>is_booked := False\<rparr> else s) = s" by simp
  qed
  finally show ?thesis .
qed

lemma seat_key_values [simp]: "seat_key (seat_values g L cell) = (L, cell)"
  by (simp add: seat_key_def seat_values_def)

lemma insert_seats_fresh:
  assumes "distinct cells"
    and "distinct (map (\<lambda>cell. g (fst cell) (snd cell)) cells)"
    and "\<forall>cell \<in> set cells. g (fst cell) (snd cell) \<notin> set (map s_id (seats d))"
    and "L \<in> set (map sl_id (seat_layout d))"
  shows "insert_seats g L cells d =
     Inr (d\<lparr>seats := seats d @ map (seat_values g L)
            (filter (\<lambda>cell. (L, cell) \<notin> set (map seat_key (seats d))) cells)\<rparr>)"
  using assms
proof (induction cells arbitrary: d)
  case Nil
  then show ?case by simp
next
  case (Cons cell cells)
  show ?case
  proof (cases "(L, cell) \<in> set (map seat_key (seats d))")
    case True
    then have "insert_seat_on_conflict_do_nothing (seat_values g L cell) d = Inr d"
      by (simp add: insert_seat_on_conflict_do_nothing_def)
    moreover from Cons.prems have "insert_seats g L cells d =
       Inr (d\<lparr>seats := seats d @ map (seat_values g L)
            (filter (\<lambda>cell. (L, cell) \<notin> set (map seat_key (seats d))) cells)\<rparr>)"
      by (intro Cons.IH) simp_all
    ultimately show ?thesis using True by simp
  next
    case False
    let ?v = "seat_values g L cell"
    let ?d1 = "d\<lparr>seats := seats d @ [?v]\<rparr>"
    from Cons.prems(3) have i: "s_id ?v \<notin> set (map s_id (seats d))"
      by (simp add: seat_values_def)
    from False have k: "seat_key ?v \<notin> set (map seat_key (seats d))" by simp
    from Cons.prems(4) have f: "seat_layout_id ?v \<in> set (map sl_id (seat_layout d))"
      by (simp add: seat_values_def)
    from i k f have step: "insert_seat_on_conflict_do_nothing ?v d = Inr ?d1"
      unfolding insert_seat_on_conflict_do_nothing_def by simp
    have fresh: "\<forall>c \<in> set cells. g (fst c) (snd c) \<notin> set (map s_id (seats ?d1))"
    proof
      fix c assume c: "c \<in> set cells"
      with Cons.prems(3) have "g (fst c) (snd c) \<notin> set (map s_id (seats d))" by simp
      moreover from Cons.prems(2) c have "g (fst c) (snd c) \<noteq> g (fst cell) (snd cell)"
        by (metis (no_types, lifting) distinct.simps(2) imageI list.simps(9) set_map)
      ultimately show "g (fst c) (snd c) \<notin> set (map s_id (seats ?d1))"
        by (simp add: seat_values_def)
    qed
    from Cons.prems fresh have "insert_seats g L cells ?d1 =
       Inr (?d1\<lparr>seats := seats ?d1 @ map (seat_values g L)
            (filter (\<lambda>c. (L, c) \<notin> set (map seat_key (seats ?d1))) cells)\<rparr>)"
      by (intro Cons.IH) simp_all
    moreover from Cons.prems(1)
    have "filter (\<lambda>c. (L, c) \<notin> set (map seat_key (seats ?d1))) cells =
          filter (\<lambda>c. (L, c) \<notin> set (map seat_key (seats d))) cells"
      by (intro filter_cong) auto
    ultimately show ?thesis using step False by simp
  qed
qed

lemma layout_cells_distinct: "distinct (layout_cells l)"
  by (simp add: layout_cells_def distinct_product)

lemma layout_cells_set:
  "cell \<in> set (layout_cells l) \<longleftrightarrow>
     1 \<le> fst cell \<and> fst cell \<le> total_rows l \<and> 1 \<le> snd cell \<and> snd cell \<le> total_columns l"
  by (cases cell) (auto simp: layout_cells_def)

lemma layout_cells_length: "length (layout_cells l) = nat (total_rows l) * nat (total_columns l)"
  by (simp add: layout_cells_def)

lemma generate_seats_seats:
  assumes "l \<in> set (seat_layout d)" and "distinct (map sl_id (seat_layout d))"
    and "distinct (map s_id (seats d))"
    and "distinct (map (\<lambda>cell. g (fst cell) (snd cell)) (layout_cells l))"
    and "\<forall>cell \<in> set (layout_cells l). g (fst cell) (snd cell) \<notin> set (map s_id (seats d))"
    and "kept = filter (\<lambda>s. \<not> (seat_layout_id s = sl_id l \<and> is_booked s = False)) (seats d)"
  shows "\<exists>d'. generate_seats_for_layout g (sl_id l) d = Inr d' \<and>
           seats d' = kept @ map (seat_values g (sl_id l))
             (filter (\<lambda>cell. (sl_id l, cell) \<notin> set (map seat_key kept)) (layout_cells l))"
proof -
  let ?P = "\<lambda>s. seat_layout_id s = sl_id l \<and> is_booked s = False"
  let ?d1 = "delete_seats_where ?P d"
  from distinct_map_filter_single [OF assms(2,1)]
  have row: "filter (\<lambda>x. sl_id x = sl_id l) (seat_layout d) = [l]" .
  have s1: "seats ?d1 = kept"
    unfolding assms(6) by (rule delete_seats_where_seats [OF assms(3)])
  from assms(5) have fresh: "\<forall>cell \<in> set (layout_cells l). g (fst cell) (snd cell) \<notin> set (map s_id (seats ?d1))"
    unfolding s1 assms(6) by auto
  from assms(1) have lay: "sl_id l \<in> set (map sl_id (seat_layout ?d1))" by simp
  from insert_seats_fresh [OF layout_cells_distinct assms(4) fresh lay]
  have "insert_seats g (sl_id l) (layout_cells l) ?d1 =
     Inr (?d1\<lparr>seats := kept @ map (seat_values g (sl_id l))
            (filter (\<lambda>cell. (sl_id l, cell) \<notin> set (map seat_key kept)) (layout_cells l))\<rparr>)"
    unfolding s1 .
  then show ?thesis by (simp add: generate_seats_for_layout_def row)
qed


lemma count_occupied:
  assumes "distinct cells" and "distinct (map key ss)"
  shows "length (filter (\<lambda>c. c \<in> set (map key ss)) cells) =
         length (filter (\<lambda>s. key s \<in> set cells) ss)"
proof -
  have "length (filter (\<lambda>c. c \<in> set (map key ss)) cells) = card (set (map key ss) \<inter> set cells)"
    using assms(1) by (simp add: distinct_length_filter Collect_mem_eq)
  moreover have "length (filter (\<lambda>s. key s \<in> set cells) ss) =
      length (map key (filter (\<lambda>s. key s \<in> set cells) ss))" by simp
  moreover have "distinct (map key (filter (\<lambda>s. key s \<in> set cells) ss))"
    using assms(2) by (rule distinct_map_filter)
  then have "length (map key (filter (\<lambda>s. key s \<in> set cells) ss)) =
      card (set (map key (filter (\<lambda>s. key s \<in> set cells) ss)))"
    by (simp only: distinct_card)
  moreover have "set (map key (filter (\<lambda>s. key s \<in> set cells) ss)) = set (map key ss) \<inter> set cells"
    by auto
  ultimately show ?thesis by simp
qed

lemma generate_seats_count:
  assumes keys: "distinct (map seat_key (seats d))"
    and kept: "kept = filter (\<lambda>s. \<not> (seat_layout_id s = L \<and> is_booked s = False)) (seats d)"
    and new: "new = filter (\<lambda>cell. (L, cell) \<notin> set (map seat_key kept)) (layout_cells l)"
  shows "length (filter (\<lambda>s. seat_layout_id s = L) (kept @ map (seat_values g L) new)) =
         nat (total_rows l) * nat (total_columns l) +
         length (filter (\<lambda>s. is_booked s \<and> \<not> in_grid l s) (filter (\<lambda>s. seat_layout_id s = L) (seats d)))"
proof -
  let ?pos = "\<lambda>s. (row_num s, col_num s)"
  define BL where "BL = filter (\<lambda>s. seat_layout_id s = L \<and> is_booked s) (seats d)"
  have kl: "filter (\<lambda>s. seat_layout_id s = L) kept = BL"
    unfolding kept BL_def by (simp add: conj_commute) (metis)
  have nl: "filter (\<lambda>s. seat_layout_id s = L) (map (seat_values g L) new) = map (seat_values g L) new"
    by (simp add: filter_map o_def seat_values_def)
  have total: "length (filter (\<lambda>s. seat_layout_id s = L) (kept @ map (seat_values g L) new)) =
      length BL + length new"
    by (simp add: kl nl)
  have dpos: "distinct (map ?pos BL)"
  proof -
    from keys have "distinct (map seat_key BL)" unfolding BL_def by (rule distinct_map_filter)
    moreover have "map seat_key BL = map (\<lambda>s. (L, ?pos s)) BL"
      unfolding BL_def by (simp add: seat_key_def)
    ultimately have "distinct (map (Pair L) (map ?pos BL))" by (simp add: o_def)
    then show ?thesis by (rule distinct_map [THEN iffD1, THEN conjunct1])
  qed
  have occ: "(L, cell) \<in> set (map seat_key kept) \<longleftrightarrow> cell \<in> set (map ?pos BL)" for cell
    unfolding kept BL_def by (auto simp: seat_key_def image_iff)
  have "new = filter (\<lambda>cell. \<not> cell \<in> set (map ?pos BL)) (layout_cells l)"
    unfolding new occ by (rule refl)
  then have "length new + length (filter (\<lambda>cell. cell \<in> set (map ?pos BL)) (layout_cells l)) =
      length (layout_cells l)"
    by (simp add: sum_length_filter_compl add.commute)
  moreover have "filter (in_grid l) BL = filter (\<lambda>s. ?pos s \<in> set (layout_cells l)) BL"
    by (rule filter_cong) (simp_all add: layout_cells_set in_grid_def)
  with count_occupied [OF layout_cells_distinct dpos, of l]
  have "length (filter (\<lambda>cell. cell \<in> set (map ?pos BL)) (layout_cells l)) =
      length (filter (in_grid l) BL)"
    by simp
  moreover have "length BL = length (filter (in_grid l) BL) + length (filter (\<lambda>s. \<not> in_grid l s) BL)"
    by (simp add: sum_length_filter_compl)
  moreover have "filter (\<lambda>s. \<not> in_grid l s) BL =
      filter (\<lambda>s. is_booked s \<and> \<not> in_grid l s) (filter (\<lambda>s. seat_layout_id s = L) (seats d))"
    unfolding BL_def by (simp add: conj_commute conj_left_commute)
  ultimately show ?thesis
    using total by (simp add: layout_cells_length)
qed


lemma generate_seats_keys:
  assumes keys: "distinct (map seat_key (seats d))"
    and kept: "kept = filter (\<lambda>s. \<not> (seat_layout_id s = L \<and> is_booked s = False)) (seats d)"
    and new: "new = filter (\<lambda>cell. (L, cell) \<notin> set (map seat_key kept)) (layout_cells l)"
  shows "distinct (map seat_key (kept @ map (seat_values g L) new))"
proof -
  from keys have a: "distinct (map seat_key kept)" unfolding kept by (rule distinct_map_filter)
  have m: "map seat_key (map (seat_values g L) new) = map (Pair L) new" by simp
  have "distinct new" unfolding new using layout_cells_distinct by (rule distinct_filter)
  then have b: "distinct (map (Pair L) new)" by (simp add: distinct_map inj_on_def)
  have c: "set (map seat_key kept) \<inter> set (map (Pair L) new) = {}"
    unfolding new by auto
  from a b c show ?thesis unfolding map_append m by (simp only: distinct_append)
qed

lemma generate_seats_cell:
  assumes keys: "distinct (map seat_key (seats d))"
    and kept: "kept = filter (\<lambda>s. \<not> (seat_layout_id s = L \<and> is_booked s = False)) (seats d)"
    and new: "new = filter (\<lambda>cell. (L, cell) \<notin> set (map seat_key kept)) (layout_cells l)"
    and cell: "cell \<in> set (layout_cells l)"
  shows "length (filter (\<lambda>s. seat_key s = (L, cell)) (kept @ map (seat_values g L) new)) = 1"
proof -
  let ?ss = "kept @ map (seat_values g L) new"
  have "(L, cell) \<in> set (map seat_key ?ss)"
  proof (cases "(L, cell) \<in> set (map seat_key kept)")
    case True
    then show ?thesis by simp
  next
    case False
    with cell have "cell \<in> set new" unfolding new by simp
    then have "(L, cell) \<in> set (map (Pair L) new)" by simp
    moreover have "map seat_key (map (seat_values g L) new) = map (Pair L) new" by simp
    ultimately have "(L, cell) \<in> set (map seat_key (map (seat_values g L) new))"
      by (simp only:)
    then show ?thesis unfolding map_append set_append by (rule UnI2)
  qed
  then have "(L, cell) \<in> seat_key ` set ?ss" unfolding set_map .
  then obtain s where s: "(L, cell) = seat_key s" "s \<in> set ?ss" by (rule imageE)
  from distinct_map_filter_single [OF generate_seats_keys [OF keys kept new] s(2)]
  have "filter (\<lambda>y. seat_key y = seat_key s) ?ss = [s]" .
  then show ?thesis unfolding s(1) by simp
qed

lemma generate_seats_removed:
  assumes pk: "distinct (map s_id (seats d))"
    and fresh: "\<forall>cell \<in> set (layout_cells l). g (fst cell) (snd cell) \<notin> set (map s_id (seats d))"
    and kept: "kept = filter (\<lambda>s. \<not> (seat_layout_id s = L \<and> is_booked s = False)) (seats d)"
    and new: "new = filter (\<lambda>cell. (L, cell) \<notin> set (map seat_key kept)) (layout_cells l)"
    and s: "s \<in> set (seats d)" "seat_layout_id s = L" "\<not> is_booked s"
  shows "s_id s \<notin> set (map s_id (kept @ map (seat_values g L) new))"
proof
  assume "s_id s \<in> set (map s_id (kept @ map (seat_values g L) new))"
  then consider s' where "s' \<in> set kept" "s_id s' = s_id s"
    | cell where "cell \<in> set new" "s_id (seat_values g L cell) = s_id s"
    by auto
  then show False
  proof cases
    case 1
    then have "s' \<in> set (seats d)" unfolding kept by simp
    from distinct_map_eq [OF pk this s(1) 1(2)] 1(1) s(2,3) show False
      unfolding kept by simp
  next
    case 2
    then have "cell \<in> set (layout_cells l)" unfolding new by simp
    with fresh have "g (fst cell) (snd cell) \<notin> set (map s_id (seats d))" by blast
    moreover from 2(2) have "g (fst cell) (snd cell) = s_id s" by (simp add: seat_values_def)
    ultimately show False using s(1) by simp
  qed
qed

lemma generate_seats_created:
  assumes kept: "kept = filter (\<lambda>s. \<not> (seat_layout_id s = L \<and> is_booked s = False)) (seats d)"
    and new: "new = filter (\<lambda>cell. (L, cell) \<notin> set (map seat_key kept)) (layout_cells l)"
    and s: "s \<in> set (kept @ map (seat_values g L) new)" "s \<notin> set (seats d)"
  shows "seat_layout_id s = L \<and> in_grid l s \<and> \<not> is_booked s"
proof -
  from s have "s \<notin> set kept" unfolding kept by auto
  with s(1) obtain cell where c: "cell \<in> set new" "s = seat_values g L cell" by auto
  then have "cell \<in> set (layout_cells l)" unfolding new by simp
  with c(2) show ?thesis by (simp add: seat_values_def in_grid_def layout_cells_set)
qed

text \<open>
  Claim C6, amended. Let \<open>l\<close> be a layout row, and let the store satisfy the primary keys of
  \<open>seat_layout\<close> and \<open>seats\<close> and the unique constraint on the cells, with ids drawn for the
  grid that are new and different from each other. Then regenerating the layout succeeds,
  and afterwards: every cell of the grid holds exactly one seat of the layout; the layout
  has rows x columns seats plus one for each previously booked seat outside the grid; every
  previously booked seat is there as it was (same id, same cell, booked); the row of every
  previously unbooked seat is gone; every seat that was not there before is an unbooked
  seat in a cell of the grid; the seats of other layouts are as before.
\<close>

theorem regenerate_keeps_booked_and_fills_grid:
  assumes "l \<in> set (seat_layout d)" and "distinct (map sl_id (seat_layout d))"
    and "distinct (map s_id (seats d))" and "distinct (map seat_key (seats d))"
    and "distinct (map (\<lambda>cell. g (fst cell) (snd cell)) (layout_cells l))"
    and "\<forall>cell \<in> set (layout_cells l). g (fst cell) (snd cell) \<notin> set (map s_id (seats d))"
  shows "\<exists>d'. generate_seats_for_layout g (sl_id l) d = Inr d' \<and>
     (\<forall>r c. 1 \<le> r \<and> r \<le> total_rows l \<and> 1 \<le> c \<and> c \<le> total_columns l \<longrightarrow>
        length (filter (\<lambda>s. seat_key s = (sl_id l, r, c)) (seats d')) = 1) \<and>
     length (layout_seats (sl_id l) d') =
       nat (total_rows l) * nat (total_columns l) +
       length (filter (\<lambda>s. is_booked s \<and> \<not> in_grid l s) (layout_seats (sl_id l) d)) \<and>
     (\<forall>s \<in> set (layout_seats (sl_id l) d). is_booked s \<longrightarrow> s \<in> set (seats d')) \<and>
     (\<forall>s \<in> set (layout_seats (sl_id l) d). \<not> is_booked s \<longrightarrow> s_id s \<notin> set (map s_id (seats d'))) \<and>
     (\<forall>s \<in> set (seats d'). s \<notin> set (seats d) \<longrightarrow>
        seat_layout_id s = sl_id l \<and> in_grid l s \<and> \<not> is_booked s) \<and>
     filter (\<lambda>s. seat_layout_id s \<noteq> sl_id l) (seats d') =
       filter (\<lambda>s. seat_layout_id s \<noteq> sl_id l) (seats d)"
proof -
  define kept where "kept = filter (\<lambda>s. \<not> (seat_layout_id s = sl_id l \<and> is_booked s = False)) (seats d)"
  define new where "new = filter (\<lambda>cell. (sl_id l, cell) \<notin> set (map seat_key kept)) (layout_cells l)"
  from generate_seats_seats [OF assms(1,2,3,5,6) kept_def]
  obtain d' where gen: "generate_seats_for_layout g (sl_id l) d = Inr d'"
    and seats: "seats d' = kept @ map (seat_values g (sl_id l)) new"
    unfolding new_def by blast
  have a: "\<forall>r c. 1 \<le> r \<and> r \<le> total_rows l \<and> 1 \<le> c \<and> c \<le> total_columns l \<longrightarrow>
        length (filter (\<lambda>s. seat_key s = (sl_id l, r, c)) (seats d')) = 1"
  proof (intro allI impI)
    fix r c assume "1 \<le> r \<and> r \<le> total_rows l \<and> 1 \<le> c \<and> c \<le> total_columns l"
    then have "(r, c) \<in> set (layout_cells l)" by (simp add: layout_cells_set)
    from generate_seats_cell [OF assms(4) kept_def new_def this]
    show "length (filter (\<lambda>s. seat_key s = (sl_id l, r, c)) (seats d')) = 1"
      unfolding seats .
  qed
  have b: "length (layout_seats (sl_id l) d') =
       nat (total_rows l) * nat (total_columns l) +
       length (filter (\<lambda>s. is_booked s \<and> \<not> in_grid l s) (layout_seats (sl_id l) d))"
    unfolding layout_seats_def seats by (rule generate_seats_count [OF assms(4) kept_def new_def])
  have c: "\<forall>s \<in> set (layout_seats (sl_id l) d). is_booked s \<longrightarrow> s \<in> set (seats d')"
    unfolding seats kept_def layout_seats_def by simp
  have e: "\<forall>s \<in> set (layout_seats (sl_id l) d). \<not> is_booked s \<longrightarrow> s_id s \<notin> set (map s_id (seats d'))"
  proof (intro ballI impI)
    fix s assume "s \<in> set (layout_seats (sl_id l) d)" and nb: "\<not> is_booked s"
    then have "s \<in> set (seats d)" "seat_layout_id s = sl_id l" by (simp_all add: layout_seats_def)
    from generate_seats_removed [OF assms(3,6) kept_def new_def this nb]
    show "s_id s \<notin> set (map s_id (seats d'))" unfolding seats .
  qed
  have f: "\<forall>s \<in> set (seats d'). s \<notin> set (seats d) \<longrightarrow>
        seat_layout_id s = sl_id l \<and> in_grid l s \<and> \<not> is_booked s"
  proof (intro ballI impI)
    fix s assume "s \<in> set (seats d')" "s \<notin> set (seats d)"
    then show "seat_layout_id s = sl_id l \<and> in_grid l s \<and> \<not> is_booked s"
      unfolding seats by (rule generate_seats_created [OF kept_def new_def])
  qed
  have h: "filter (\<lambda>s. seat_layout_id s \<noteq> sl_id l) (seats d') =
       filter (\<lambda>s. seat_layout_id s \<noteq> sl_id l) (seats d)"
  proof -
    have "filter (\<lambda>s. seat_layout_id s \<noteq> sl_id l) (map (seat_values g (sl_id l)) new) = []"
      by (simp add: filter_empty_conv seat_values_def)
    moreover have "filter (\<lambda>s. seat_layout_id s \<noteq> sl_id l) kept =
        filter (\<lambda>s. seat_layout_id s \<noteq> sl_id l) (seats d)"
      unfolding kept_def by (simp add: conj_commute) (metis)
    ultimately show ?thesis unfolding seats by simp
  qed
  from gen a b c e f h show ?thesis by blast
qed


lemma demo_regeneration:
  "generate_seats_for_layout demo_uuid 10 demo_shrunk = Inr demo_regenerated"
  by (simp add: generate_seats_for_layout_def demo_shrunk_def update_layout_def int4_def commit_def demo_moved_def
        demo_db_def demo_regenerated_def demo_uuid_def delete_seats_where_def
        delete_bookings_where_def insert_seat_on_conflict_do_nothing_def seat_values_def
        seat_key_def layout_cells_def)

theorem regenerate_keeps_booked_and_fills_grid_witness:
  "demo_layout \<in> set (seat_layout demo_shrunk) \<and>
   distinct (map sl_id (seat_layout demo_shrunk)) \<and>
   distinct (map s_id (seats demo_shrunk)) \<and>
   distinct (map seat_key (seats demo_shrunk)) \<and>
   distinct (map (\<lambda>cell. demo_uuid (fst cell) (snd cell)) (layout_cells demo_layout)) \<and>
   list_all (\<lambda>cell. demo_uuid (fst cell) (snd cell) \<notin> set (map s_id (seats demo_shrunk)))
     (layout_cells demo_layout) \<and>
   generate_seats_for_layout demo_uuid (sl_id demo_layout) demo_shrunk = Inr demo_regenerated \<and>
   length (layout_seats (sl_id demo_layout) demo_regenerated) = nat 1 * nat 1 + 1"
proof -
  have h1: "demo_layout \<in> set (seat_layout demo_shrunk)"
    by (simp add: demo_layout_def demo_shrunk_def update_layout_def int4_def commit_def demo_moved_def demo_db_def)
  have h2: "distinct (map sl_id (seat_layout demo_shrunk))"
    by (simp add: demo_shrunk_def update_layout_def int4_def commit_def demo_moved_def demo_db_def)
  have h3: "distinct (map s_id (seats demo_shrunk))"
    by (simp add: demo_shrunk_def update_layout_def int4_def commit_def demo_moved_def demo_db_def)
  have h4: "distinct (map seat_key (seats demo_shrunk))"
    by (simp add: demo_shrunk_def update_layout_def int4_def commit_def demo_moved_def demo_db_def seat_key_def)
  have cells: "layout_cells demo_layout = [(1, 1)]"
    by (simp add: layout_cells_def demo_layout_def)
  have h5: "distinct (map (\<lambda>cell. demo_uuid (fst cell) (snd cell)) (layout_cells demo_layout))"
    by (simp add: cells)
  have h6: "\<forall>cell \<in> set (layout_cells demo_layout).
      demo_uuid (fst cell) (snd cell) \<notin> set (map s_id (seats demo_shrunk))"
    by (simp add: cells demo_uuid_def demo_shrunk_def update_layout_def int4_def commit_def demo_moved_def demo_db_def)
  then have h6': "list_all (\<lambda>cell. demo_uuid (fst cell) (snd cell) \<notin> set (map s_id (seats demo_shrunk)))
     (layout_cells demo_layout)" by (simp only: list_all_iff)
  have gen: "generate_seats_for_layout demo_uuid (sl_id demo_layout) demo_shrunk = Inr demo_regenerated"
    using demo_regeneration by (simp add: demo_layout_def)
  from regenerate_keeps_booked_and_fills_grid [OF h1 h2 h3 h4 h5 h6]
  obtain d' where d': "generate_seats_for_layout demo_uuid (sl_id demo_layout) demo_shrunk = Inr d'"
    and n: "length (layout_seats (sl_id demo_layout) d') =
       nat (total_rows demo_layout) * nat (total_columns demo_layout) +
       length (filter (\<lambda>s. is_booked s \<and> \<not> in_grid demo_layout s)
         (layout_seats (sl_id demo_layout) demo_shrunk))"
    by blast
  from d' gen have "d' = demo_regenerated" by simp
  with n have count: "length (layout_seats (sl_id demo_layout) demo_regenerated) = nat 1 * nat 1 + 1"
    by (simp add: demo_layout_def in_grid_def layout_seats_def demo_shrunk_def update_layout_def int4_def commit_def
          demo_moved_def demo_db_def)
  from h1 h2 h3 h4 h5 h6' gen count show ?thesis by (intro conjI)
qed

text \<open>
  Claim C6 as stated fails when a booked seat lies outside the new grid: after the layout of
  the sample store is shrunk to 1 x 1, regeneration keeps the booked seat in cell (1, 2)
  and creates the seat of cell (1, 1), so the layout has two seats, not 1 x 1.
\<close>

theorem regenerate_count_counterexample:
  "seat_layout demo_shrunk = [demo_layout] \<and> total_rows demo_layout = 1 \<and>
   total_columns demo_layout = 1 \<and>
   generate_seats_for_layout demo_uuid 10 demo_shrunk = Inr demo_regenerated \<and>
   length (layout_seats 10 demo_regenerated) = 2 \<and>
   length (layout_seats 10 demo_regenerated) \<noteq> nat (1 * 1)"
proof -
  have a: "seat_layout demo_shrunk = [demo_layout]"
    by (simp add: demo_layout_def demo_shrunk_def update_layout_def int4_def commit_def demo_moved_def demo_db_def)
  have b: "total_rows demo_layout = 1" and c: "total_columns demo_layout = 1"
    by (simp_all add: demo_layout_def)
  have e: "length (layout_seats 10 demo_regenerated) = 2"
    by (simp add: layout_seats_def demo_regenerated_def demo_shrunk_def update_layout_def int4_def commit_def)
  then have f: "length (layout_seats 10 demo_regenerated) \<noteq> nat (1 * 1)" by simp
  from a b c demo_regeneration e f show ?thesis by (intro conjI)
qed


end
